theory Spec2Isabelle
  imports
    Main
    "HOL-Library.Word"
    "HOL-Library.Char_ord"
    "HOL-Library.List_Lexorder"
    "HOL-Library.Multiset"
begin

section \<open>Data model of main.go\<close>

text \<open>
  The program turns a zip archive of page images into one tall image. The embedding
  follows \<^verbatim>\<open>CreateWebtoonStrip\<close>, \<^verbatim>\<open>isImageFile\<close>, \<^verbatim>\<open>decodeImage\<close> and
  \<^verbatim>\<open>streamPNG\<close> of \<^verbatim>\<open>src/main.go\<close>.

  Go strings are byte sequences compared bytewise, which is the lexicographic order of
  \<open>string\<close> here (a list of 8-bit characters). A byte buffer is a list of 8-bit words.
\<close>

type_synonym byte = "8 word"
type_synonym bytes = "byte list"

text \<open>
  \<^verbatim>\<open>color.RGBA\<close>: four 8-bit channels. The zero value is what a fresh
  \<^verbatim>\<open>image.NewRGBA\<close> holds everywhere.
\<close>

datatype RGBA = RGBA (R: byte) (G: byte) (B: byte) (A: byte)

text \<open>
  An \<^verbatim>\<open>image.Image\<close> as the program uses it: \<^verbatim>\<open>Bounds().Dx()\<close>, \<^verbatim>\<open>Bounds().Dy()\<close>
  and the pixel at a point. The bounds of every image the program handles start at
  the origin (the three decoders and \<^verbatim>\<open>image.NewRGBA(image.Rect(0, 0, w, h))\<close> all
  produce such images), so coordinates are natural numbers. \<open>At\<close> gives the colour as
  \<^verbatim>\<open>draw.Draw\<close> with \<^verbatim>\<open>draw.Src\<close> stores it into an \<^verbatim>\<open>*image.RGBA\<close>.
  Go's \<^verbatim>\<open>int\<close> is modelled without a bound: the decoded pages are all held in memory,
  so the sum of their heights cannot reach the 64-bit limit.
\<close>

record image =
  Dx :: nat
  Dy :: nat
  At :: "nat \<Rightarrow> nat \<Rightarrow> RGBA"

text \<open>
  A \<^verbatim>\<open>*zip.File\<close>: its \<^verbatim>\<open>Name\<close>, and what \<^verbatim>\<open>file.Open()\<close> followed by
  \<^verbatim>\<open>io.ReadAll(rc)\<close> gives: either call can fail, otherwise the entry's bytes.
\<close>

datatype entry_content = OpenFails | ReadFails | Bytes bytes

record zip_file =
  Name :: string
  Content :: entry_content

text \<open>
  The errors the program builds with \<^verbatim>\<open>fmt.Errorf\<close>, one constructor for each message:
  \<^verbatim>\<open>error opening CBZ file\<close>, \<^verbatim>\<open>error opening file %s\<close>, \<^verbatim>\<open>error reading file %s\<close>,
  \<^verbatim>\<open>no valid images found with matching width in the CBZ file\<close>,
  \<^verbatim>\<open>unsupported image format\<close>, and the error of \<^verbatim>\<open>encoder.Encode\<close>.
\<close>

datatype error =
    ArchiveOpenError
  | EntryOpenError string
  | EntryReadError string
  | NoValidPagesError
  | DecodeError
  | EncodeError

datatype codec = JPEG | PNG | WEBP

text \<open>
  The library functions the program calls and whose code is not part of the repository
  are parameters of the model:
  \<^item> \<^verbatim>\<open>zip.OpenReader\<close>, from a path to the archive's entries in storage order, or
    nothing when it returns an error;
  \<^item> \<^verbatim>\<open>sort.Slice\<close>, from a less-function and a slice to the reordered slice;
  \<^item> \<^verbatim>\<open>jpeg.Decode\<close>, \<^verbatim>\<open>png.Decode\<close> and \<^verbatim>\<open>webp.Decode\<close>, from a buffer to an image, or
    nothing when they return an error;
  \<^item> \<^verbatim>\<open>png.Encoder.Encode\<close> at \<^verbatim>\<open>png.DefaultCompression\<close>.
\<close>

record golib =
  zip_OpenReader :: "string \<Rightarrow> zip_file list option"
  sort_Slice :: "(zip_file \<Rightarrow> zip_file \<Rightarrow> bool) \<Rightarrow> zip_file list \<Rightarrow> zip_file list"
  jpeg_Decode :: "bytes \<Rightarrow> image option"
  png_Decode :: "bytes \<Rightarrow> image option"
  webp_Decode :: "bytes \<Rightarrow> image option"
  png_Encode :: "image \<Rightarrow> bytes option"

text \<open>
  What the documentation of \<^verbatim>\<open>sort.Slice\<close> promises: the result is a rearrangement of
  the slice in which no element is less than an earlier one. The sort is not stable,
  so nothing is said about the order of elements that compare equal.
\<close>

definition sort_Slice_ok ::
  "golib \<Rightarrow> (zip_file \<Rightarrow> zip_file \<Rightarrow> bool) \<Rightarrow> zip_file list \<Rightarrow> bool" where
  "sort_Slice_ok L lt fs \<longleftrightarrow>
     mset (sort_Slice L lt fs) = mset fs \<and>
     sorted_wrt (\<lambda>a b. \<not> lt b a) (sort_Slice L lt fs)"

section \<open>isImageFile\<close>

text \<open>
  \<^verbatim>\<open>filepath.Ext\<close> scans the path from its end, stops with the empty string at a path
  separator and returns the suffix that starts at the first dot it meets. The separator
  is the slash, as on every system but Windows.
\<close>

fun ext_scan :: "string \<Rightarrow> string \<Rightarrow> string" where
  "ext_scan [] suffix = []"
| "ext_scan (c # cs) suffix =
     (if c = CHR ''/'' then []
      else if c = CHR ''.'' then c # suffix
      else ext_scan cs (c # suffix))"

definition filepath_Ext :: "string \<Rightarrow> string" where
  "filepath_Ext path = ext_scan (rev path) []"

text \<open>
  \<^verbatim>\<open>strings.ToLower\<close> on the bytes \<open>A\<close> to \<open>Z\<close>. Go also lowers letters beyond ASCII, but
  none of them becomes a letter of the four extensions compared here, so the
  comparison of \<open>isImageFile\<close> comes out the same.
\<close>

definition toLower_char :: "char \<Rightarrow> char" where
  "toLower_char c =
     (if CHR ''A'' \<le> c \<and> c \<le> CHR ''Z'' then char_of (of_char c + (32::nat)) else c)"

definition strings_ToLower :: "string \<Rightarrow> string" where
  "strings_ToLower s = map toLower_char s"

definition isImageFile :: "string \<Rightarrow> bool" where
  "isImageFile filename =
     (let ext = strings_ToLower (filepath_Ext filename)
      in ext = ''.jpg'' \<or> ext = ''.jpeg'' \<or> ext = ''.png'' \<or> ext = ''.webp'')"

section \<open>decodeImage\<close>

text \<open>
  \<^verbatim>\<open>decodeImage\<close> reads the whole reader (a \<^verbatim>\<open>bytes.Reader\<close>, which cannot fail) and
  calls the decoders one after the other, returning at the first that succeeds. The
  first component of the result lists the decoders that were called, in call order;
  the second is the returned image with its format name, or the error.
\<close>

definition decodeImage :: "golib \<Rightarrow> bytes \<Rightarrow> codec list \<times> (error + image \<times> string)" where
  "decodeImage L data =
     (case jpeg_Decode L data of
        Some img \<Rightarrow> ([JPEG], Inr (img, ''jpeg''))
      | None \<Rightarrow>
         (case png_Decode L data of
            Some img \<Rightarrow> ([JPEG, PNG], Inr (img, ''png''))
          | None \<Rightarrow>
             (case webp_Decode L data of
                Some img \<Rightarrow> ([JPEG, PNG, WEBP], Inr (img, ''webp''))
              | None \<Rightarrow> ([JPEG, PNG, WEBP], Inl DecodeError))))"

section \<open>CreateWebtoonStrip\<close>

text \<open>
  The three variables the loop over the entries updates. The calls of \<^verbatim>\<open>log.Printf\<close>
  write to the log only and are left out.
\<close>

record strip_state =
  images :: "image list"
  totalHeight :: nat
  commonWidth :: nat

definition init_state :: strip_state where
  "init_state = \<lparr>images = [], totalHeight = 0, commonWidth = 0\<rparr>"

text \<open>
  Lines 112 to 121: what the loop does with a decoded image. The \<^verbatim>\<open>continue\<close> of the
  width mismatch leaves the three variables as they are.
\<close>

definition acceptPage :: "strip_state \<Rightarrow> image \<Rightarrow> strip_state" where
  "acceptPage st img =
     (let width = Dx img in
      if commonWidth st = 0 then
        st\<lparr>images := images st @ [img],
           totalHeight := totalHeight st + Dy img,
           commonWidth := width\<rparr>
      else if width \<noteq> commonWidth st then st
      else
        st\<lparr>images := images st @ [img],
           totalHeight := totalHeight st + Dy img\<rparr>)"

text \<open>Lines 91 to 123: the loop over the sorted entries.\<close>

fun processFiles :: "golib \<Rightarrow> zip_file list \<Rightarrow> strip_state \<Rightarrow> error + strip_state" where
  "processFiles L [] st = Inr st"
| "processFiles L (file # files) st =
     (if isImageFile (Name file) then
        (case Content file of
           OpenFails \<Rightarrow> Inl (EntryOpenError (Name file))
         | ReadFails \<Rightarrow> Inl (EntryReadError (Name file))
         | Bytes data \<Rightarrow>
            (case snd (decodeImage L data) of
               Inl err \<Rightarrow> processFiles L files st
             | Inr (img, format) \<Rightarrow> processFiles L files (acceptPage st img)))
      else processFiles L files st)"

text \<open>
  \<^verbatim>\<open>image.NewRGBA(image.Rect(0, 0, w, h))\<close>: every pixel is the zero colour, and
  \<^verbatim>\<open>At\<close> outside the bounds gives the zero colour too. The panic of \<^verbatim>\<open>NewRGBA\<close> on a
  rectangle too large for a pixel buffer is outside the model, like the bound of \<^verbatim>\<open>int\<close>.
\<close>

definition NewRGBA :: "nat \<Rightarrow> nat \<Rightarrow> image" where
  "NewRGBA w h = \<lparr>Dx = w, Dy = h, At = (\<lambda>x y. RGBA 0 0 0 0)\<rparr>"

text \<open>
  \<^verbatim>\<open>draw.Draw(dst, image.Rect(x0, y0, x1, y1), src, image.Point{}, draw.Src)\<close>: the
  rectangle is clipped to the bounds of \<open>dst\<close> and to the bounds of \<open>src\<close> moved to
  \<open>(x0, y0)\<close>; inside it the pixels of \<open>dst\<close> are replaced by those of \<open>src\<close>.
\<close>

definition draw_Draw :: "image \<Rightarrow> nat \<times> nat \<times> nat \<times> nat \<Rightarrow> image \<Rightarrow> image" where
  "draw_Draw dst r src =
     (case r of (x0, y0, x1, y1) \<Rightarrow>
        dst\<lparr>At := (\<lambda>x y.
          if x0 \<le> x \<and> x < x1 \<and> x < Dx dst \<and> x < x0 + Dx src \<and>
             y0 \<le> y \<and> y < y1 \<and> y < Dy dst \<and> y < y0 + Dy src
          then At src (x - x0) (y - y0)
          else At dst x y)\<rparr>)"

text \<open>Lines 130 to 135: the loop that draws the kept images one below the other.\<close>

fun drawImages :: "image list \<Rightarrow> nat \<Rightarrow> nat \<Rightarrow> image \<Rightarrow> image" where
  "drawImages [] commonW currentY finalImage = finalImage"
| "drawImages (img # imgs) commonW currentY finalImage =
     drawImages imgs commonW (currentY + Dy img)
       (draw_Draw finalImage (0, currentY, commonW, currentY + Dy img) img)"

definition less_Name :: "zip_file \<Rightarrow> zip_file \<Rightarrow> bool" where
  "less_Name a b \<longleftrightarrow> Name a < Name b"

definition CreateWebtoonStrip :: "golib \<Rightarrow> string \<Rightarrow> error + image" where
  "CreateWebtoonStrip L cbzFilePath =
     (case zip_OpenReader L cbzFilePath of
        None \<Rightarrow> Inl ArchiveOpenError
      | Some files \<Rightarrow>
         (case processFiles L (sort_Slice L less_Name files) init_state of
            Inl err \<Rightarrow> Inl err
          | Inr st \<Rightarrow>
             if length (images st) = 0 then Inl NoValidPagesError
             else Inr (drawImages (images st) (commonWidth st) 0
                         (NewRGBA (commonWidth st) (totalHeight st)))))"

section \<open>streamPNG\<close>

definition streamPNG :: "golib \<Rightarrow> image \<Rightarrow> error + bytes" where
  "streamPNG L img =
     (case png_Encode L img of None \<Rightarrow> Inl EncodeError | Some out \<Rightarrow> Inr out)"

section \<open>Auxiliary notions for stating the properties\<close>

text \<open>
  An entry on which the loop returns an error: a name with an image extension whose
  \<^verbatim>\<open>file.Open()\<close> or \<^verbatim>\<open>io.ReadAll\<close> fails (lines 93 to 102), and the error returned.
\<close>

definition fatal_entry :: "zip_file \<Rightarrow> bool" where
  "fatal_entry f \<longleftrightarrow>
     isImageFile (Name f) \<and> (Content f = OpenFails \<or> Content f = ReadFails)"

definition entry_error :: "zip_file \<Rightarrow> error" where
  "entry_error f =
     (case Content f of OpenFails \<Rightarrow> EntryOpenError (Name f) | _ \<Rightarrow> EntryReadError (Name f))"

text \<open>
  The image the loop gets from an entry at line 104, if it gets one: the name has an
  image extension, the bytes were read, and \<open>decodeImage\<close> returned no error.
\<close>

definition page_of :: "golib \<Rightarrow> zip_file \<Rightarrow> image option" where
  "page_of L f =
     (if isImageFile (Name f) then
        (case Content f of
           Bytes data \<Rightarrow>
             (case snd (decodeImage L data) of Inl err \<Rightarrow> None | Inr (img, format) \<Rightarrow> Some img)
         | _ \<Rightarrow> None)
      else None)"

text \<open>
  The entries of a list that give an image, in the list's order, each with its image.
\<close>

fun decoded_pages :: "golib \<Rightarrow> zip_file list \<Rightarrow> (zip_file \<times> image) list" where
  "decoded_pages L [] = []"
| "decoded_pages L (f # fs) =
     (case page_of L f of
        Some img \<Rightarrow> (f, img) # decoded_pages L fs
      | None \<Rightarrow> decoded_pages L fs)"

text \<open>
  The pages the loop appends to \<^verbatim>\<open>images\<close> when it starts with \<^verbatim>\<open>commonWidth\<close> equal to
  \<open>w\<close>, with the names kept, and the value of \<^verbatim>\<open>commonWidth\<close> after the loop. Lemma
  \<open>foldl_acceptPage\<close> below ties both to \<open>acceptPage\<close>.
\<close>

fun accepted :: "nat \<Rightarrow> ('a \<times> image) list \<Rightarrow> ('a \<times> image) list" where
  "accepted w [] = []"
| "accepted w (p # ps) =
     (if w = 0 then p # accepted (Dx (snd p)) ps
      else if Dx (snd p) \<noteq> w then accepted w ps
      else p # accepted w ps)"

fun widthAfter :: "nat \<Rightarrow> ('a \<times> image) list \<Rightarrow> nat" where
  "widthAfter w [] = w"
| "widthAfter w (p # ps) = (if w = 0 then widthAfter (Dx (snd p)) ps else widthAfter w ps)"

text \<open>
  The sum of the heights of a list of pages, and the row at which the \<open>i\<close>-th of them
  starts when they are stacked.
\<close>

definition heights :: "('a \<times> image) list \<Rightarrow> nat" where
  "heights ps = sum_list (map (\<lambda>p. Dy (snd p)) ps)"

definition offset :: "('a \<times> image) list \<Rightarrow> nat \<Rightarrow> nat" where
  "offset ps i = heights (take i ps)"

text \<open>
  The image \<open>CreateWebtoonStrip\<close> builds at lines 129 to 135 from the kept pages.
\<close>

definition strip_of :: "nat \<Rightarrow> ('a \<times> image) list \<Rightarrow> image" where
  "strip_of W acc = drawImages (map snd acc) W 0 (NewRGBA W (heights acc))"

section \<open>A concrete library and concrete archives\<close>

text \<open>
  The statements below are evaluated on these values.
\<close>

text \<open>
  A test picture of the given size: the pixel at \<open>(x, y)\<close> carries both coordinates
  and a tag \<open>k\<close>, so that every row and every page can be told apart.
\<close>

definition page :: "nat \<Rightarrow> nat \<Rightarrow> byte \<Rightarrow> image" where
  "page w h k = \<lparr>Dx = w, Dy = h, At = (\<lambda>x y. RGBA (of_nat x) (of_nat y) k 255)\<rparr>"

text \<open>
  A toy decoder: it accepts the four-byte buffers \<open>[t, w, h, k]\<close> whose first byte is
  one of its tags, and gives the test picture of width \<open>w\<close> and height \<open>h\<close>.
\<close>

definition demo_decode :: "byte list \<Rightarrow> bytes \<Rightarrow> image option" where
  "demo_decode tags data =
     (case data of
        [t, w, h, k] \<Rightarrow> if t \<in> set tags then Some (page (unat w) (unat h) k) else None
      | _ \<Rightarrow> None)"

text \<open>
  An insertion sort by a less-function, for the place of \<^verbatim>\<open>sort.Slice\<close>.
\<close>

fun insert_by :: "('a \<Rightarrow> 'a \<Rightarrow> bool) \<Rightarrow> 'a \<Rightarrow> 'a list \<Rightarrow> 'a list" where
  "insert_by lt x [] = [x]"
| "insert_by lt x (y # ys) = (if lt y x then y # insert_by lt x ys else x # y # ys)"

definition sort_by :: "('a \<Rightarrow> 'a \<Rightarrow> bool) \<Rightarrow> 'a list \<Rightarrow> 'a list" where
  "sort_by lt xs = foldr (insert_by lt) xs []"

text \<open>
  Entries for the example archives.
\<close>

definition file_p0 :: zip_file where
  "file_p0 = \<lparr>Name = ''p0.jpg'', Content = Bytes [0xFF, 0, 0, 1]\<rparr>"
definition file_p1 :: zip_file where
  "file_p1 = \<lparr>Name = ''p1.jpg'', Content = Bytes [0xFF, 2, 3, 5]\<rparr>"
definition file_p2 :: zip_file where
  "file_p2 = \<lparr>Name = ''p2.PNG'', Content = Bytes [0x89, 2, 2, 7]\<rparr>"
definition file_p3 :: zip_file where
  "file_p3 = \<lparr>Name = ''p3.webp'', Content = Bytes [0x52, 2]\<rparr>"
definition file_p4 :: zip_file where
  "file_p4 = \<lparr>Name = ''p4.png'', Content = ReadFails\<rparr>"
definition file_p5 :: zip_file where
  "file_p5 = \<lparr>Name = ''p5.jpg'', Content = Bytes [0xFF, 3, 4, 9]\<rparr>"
definition file_cover :: zip_file where
  "file_cover = \<lparr>Name = ''cover.jpeg'', Content = OpenFails\<rparr>"
definition file_notes :: zip_file where
  "file_notes = \<lparr>Name = ''notes.txt'', Content = ReadFails\<rparr>"
definition file_thumbs :: zip_file where
  "file_thumbs = \<lparr>Name = ''thumbs.db'', Content = Bytes [1]\<rparr>"

text \<open>
  A library with seven archives. The toy JPEG and PNG decoders both accept the tag 0.
\<close>

definition demo_lib :: golib where
  "demo_lib = \<lparr>
     zip_OpenReader = (\<lambda>p.
       if p = ''comic.cbz'' then Some [file_p2, file_notes, file_p1, file_p3]
       else if p = ''broken.cbz'' then Some [file_p4, file_p1]
       else if p = ''locked.cbz'' then Some [file_p1, file_cover]
       else if p = ''empty.cbz'' then Some [file_thumbs, file_notes]
       else if p = ''mixed.cbz'' then Some [file_p5, file_p1]
       else if p = ''zero.cbz'' then Some [file_p5, file_p1, file_p0]
       else if p = ''three.cbz'' then Some [file_p3, file_p2, file_p1]
       else None),
     sort_Slice = sort_by,
     jpeg_Decode = demo_decode [0xFF, 0],
     png_Decode = demo_decode [0x89, 0],
     webp_Decode = demo_decode [0x52],
     png_Encode = (\<lambda>img. None)\<rparr>"

section \<open>Lemmas about the loops\<close>

lemma processFiles_fatal:
  "fatal_entry f \<Longrightarrow> processFiles L (f # fs) st = Inl (entry_error f)"
  by (auto simp: fatal_entry_def entry_error_def)

lemma processFiles_skip:
  "\<not> fatal_entry f \<Longrightarrow> page_of L f = None \<Longrightarrow>
   processFiles L (f # fs) st = processFiles L fs st"
  by (auto simp: fatal_entry_def page_of_def split: entry_content.splits sum.splits)

lemma processFiles_page:
  "page_of L f = Some img \<Longrightarrow>
   processFiles L (f # fs) st = processFiles L fs (acceptPage st img)"
  by (auto simp: page_of_def split: entry_content.splits sum.splits if_splits)

lemma page_of_not_fatal: "page_of L f = Some img \<Longrightarrow> \<not> fatal_entry f"
  by (auto simp: page_of_def fatal_entry_def split: if_splits)

lemma processFiles_ok:
  "\<forall>f\<in>set fs. \<not> fatal_entry f \<Longrightarrow>
   processFiles L fs st = Inr (foldl acceptPage st (map snd (decoded_pages L fs)))"
proof (induction fs arbitrary: st)
  case Nil
  then show ?case by simp
next
  case (Cons f fs)
  show ?case
  proof (cases "page_of L f")
    case None
    with Cons show ?thesis by (simp add: processFiles_skip del: processFiles.simps)
  next
    case (Some img)
    with Cons show ?thesis by (simp add: processFiles_page del: processFiles.simps)
  qed
qed

lemma processFiles_Inl:
  "processFiles L fs st = Inl e \<Longrightarrow> \<exists>f\<in>set fs. fatal_entry f \<and> e = entry_error f"
proof (induction fs arbitrary: st)
  case Nil
  then show ?case by simp
next
  case (Cons f fs)
  show ?case
  proof (cases "fatal_entry f")
    case True
    with Cons.prems show ?thesis by (simp add: processFiles_fatal del: processFiles.simps)
  next
    case nf: False
    show ?thesis
    proof (cases "page_of L f")
      case None
      with nf Cons show ?thesis
        by (simp add: processFiles_skip del: processFiles.simps)
    next
      case (Some img)
      with Cons show ?thesis
        by (simp add: processFiles_page del: processFiles.simps)
    qed
  qed
qed

lemma processFiles_Inr:
  "processFiles L fs st = Inr st' \<Longrightarrow> \<forall>f\<in>set fs. \<not> fatal_entry f"
proof (induction fs arbitrary: st)
  case Nil
  then show ?case by simp
next
  case (Cons f fs)
  have nf: "\<not> fatal_entry f"
    using Cons.prems by (auto simp: processFiles_fatal simp del: processFiles.simps)
  show ?case
  proof (cases "page_of L f")
    case None
    with nf Cons show ?thesis
      by (simp add: processFiles_skip del: processFiles.simps)
  next
    case (Some img)
    with nf Cons show ?thesis
      by (simp add: processFiles_page del: processFiles.simps)
  qed
qed

lemma processFiles_fatal_Inl:
  "f \<in> set fs \<Longrightarrow> fatal_entry f \<Longrightarrow> \<exists>e. processFiles L fs st = Inl e"
  by (cases "processFiles L fs st") (auto dest: processFiles_Inr)

lemma foldl_acceptPage:
  "foldl acceptPage st (map snd ps) =
     \<lparr>images = images st @ map snd (accepted (commonWidth st) ps),
      totalHeight = totalHeight st + heights (accepted (commonWidth st) ps),
      commonWidth = widthAfter (commonWidth st) ps\<rparr>"
proof (induction ps arbitrary: st)
  case Nil
  then show ?case by (simp add: heights_def)
next
  case (Cons p ps)
  show ?case
    by (simp add: Cons.IH) (simp add: acceptPage_def heights_def)
qed

lemma accepted_nonzero:
  "w \<noteq> 0 \<Longrightarrow> accepted w ps = filter (\<lambda>p. Dx (snd p) = w) ps"
  by (induction ps) auto

lemma widthAfter_nonzero: "w \<noteq> 0 \<Longrightarrow> widthAfter w ps = w"
  by (induction ps) auto

lemma accepted_zero_prefix:
  "\<forall>p\<in>set zs. Dx (snd p) = 0 \<Longrightarrow> accepted 0 (zs @ ps) = zs @ accepted 0 ps"
  by (induction zs) auto

lemma widthAfter_zero_prefix:
  "\<forall>p\<in>set zs. Dx (snd p) = 0 \<Longrightarrow> widthAfter 0 (zs @ ps) = widthAfter 0 ps"
  by (induction zs) auto

lemma accepted_same_width:
  "\<forall>p\<in>set ps. Dx (snd p) = W \<Longrightarrow> w = 0 \<or> w = W \<Longrightarrow> accepted w ps = ps"
  by (induction ps arbitrary: w) auto

lemma widthAfter_same_width:
  "\<forall>p\<in>set ps. Dx (snd p) = W \<Longrightarrow> ps \<noteq> [] \<Longrightarrow> widthAfter 0 ps = W"
proof (induction ps)
  case Nil
  then show ?case by simp
next
  case (Cons p ps)
  show ?case
  proof (cases "W = 0")
    case True
    with Cons show ?thesis by (cases "ps = []") auto
  next
    case False
    with Cons.prems show ?thesis by (simp add: widthAfter_nonzero)
  qed
qed

lemma accepted_Nil_iff: "accepted 0 ps = [] \<longleftrightarrow> ps = []"
  by (cases ps) auto

lemma set_accepted: "set (accepted w ps) \<subseteq> set ps"
  by (induction ps arbitrary: w) auto

lemma sorted_wrt_accepted: "sorted_wrt P ps \<Longrightarrow> sorted_wrt P (accepted w ps)"
proof (induction ps arbitrary: w)
  case Nil
  then show ?case by simp
next
  case (Cons p ps)
  have sub: "q \<in> set (accepted w' ps) \<Longrightarrow> q \<in> set ps" for q w'
    using set_accepted [of w' ps] by blast
  from Cons show ?case by (auto dest: sub)
qed

lemma accepted_widths:
  "p \<in> set (accepted w ps) \<Longrightarrow> Dx (snd p) = 0 \<or> Dx (snd p) = widthAfter w ps"
proof (induction ps arbitrary: w)
  case Nil
  then show ?case by simp
next
  case (Cons q ps)
  show ?case
  proof (cases "w = 0")
    case False
    with Cons.prems show ?thesis
      by (auto simp: accepted_nonzero widthAfter_nonzero split: if_splits)
  next
    case w0: True
    show ?thesis
    proof (cases "Dx (snd q) = 0")
      case True
      with w0 Cons show ?thesis by auto
    next
      case False
      with w0 Cons.prems show ?thesis
        by (auto simp: accepted_nonzero widthAfter_nonzero)
    qed
  qed
qed

lemma set_decoded_pages:
  "(f, img) \<in> set (decoded_pages L fs) \<longleftrightarrow> f \<in> set fs \<and> page_of L f = Some img"
  by (induction fs) (auto split: option.splits)

lemma sorted_wrt_decoded_pages:
  "sorted_wrt P fs \<Longrightarrow> sorted_wrt (\<lambda>a b. P (fst a) (fst b)) (decoded_pages L fs)"
  by (induction fs) (auto simp: set_decoded_pages split: option.splits)

lemma decoded_pages_append:
  "decoded_pages L (xs @ ys) = decoded_pages L xs @ decoded_pages L ys"
  by (induction xs) (auto split: option.splits)

lemma Dx_draw_Draw [simp]: "Dx (draw_Draw dst r src) = Dx dst"
  by (simp add: draw_Draw_def split: prod.splits)

lemma Dy_draw_Draw [simp]: "Dy (draw_Draw dst r src) = Dy dst"
  by (simp add: draw_Draw_def split: prod.splits)

lemma At_draw_Draw:
  "At (draw_Draw dst (x0, y0, x1, y1) src) x y =
     (if x0 \<le> x \<and> x < x1 \<and> x < Dx dst \<and> x < x0 + Dx src \<and>
         y0 \<le> y \<and> y < y1 \<and> y < Dy dst \<and> y < y0 + Dy src
      then At src (x - x0) (y - y0) else At dst x y)"
  by (simp add: draw_Draw_def)

lemma Dx_drawImages [simp]: "Dx (drawImages imgs w y fin) = Dx fin"
  by (induction imgs arbitrary: y fin) auto

lemma Dy_drawImages [simp]: "Dy (drawImages imgs w y fin) = Dy fin"
  by (induction imgs arbitrary: y fin) auto

lemma At_drawImages_above:
  "yy < y \<Longrightarrow> At (drawImages imgs w y fin) x yy = At fin x yy"
  by (induction imgs arbitrary: y fin) (auto simp: At_draw_Draw)

lemma At_drawImages_page:
  "i < length imgs \<Longrightarrow> x < w \<Longrightarrow> x < Dx fin \<Longrightarrow> x < Dx (imgs ! i) \<Longrightarrow>
   r < Dy (imgs ! i) \<Longrightarrow> y + sum_list (map Dy imgs) \<le> Dy fin \<Longrightarrow>
   At (drawImages imgs w y fin) x (y + sum_list (map Dy (take i imgs)) + r) = At (imgs ! i) x r"
proof (induction imgs arbitrary: i y fin)
  case Nil
  then show ?case by simp
next
  case (Cons img imgs)
  show ?case
  proof (cases i)
    case 0
    with Cons.prems show ?thesis
      by (simp add: At_drawImages_above At_draw_Draw)
  next
    case (Suc k)
    have "At (drawImages imgs w (y + Dy img)
               (draw_Draw fin (0, y, w, y + Dy img) img)) x
             ((y + Dy img) + sum_list (map Dy (take k imgs)) + r) = At (imgs ! k) x r"
      using Cons.prems Suc by (intro Cons.IH) auto
    with Suc show ?thesis by (simp add: add.assoc)
  qed
qed

lemma offset_Suc:
  "i < length ps \<Longrightarrow> offset ps (Suc i) = offset ps i + Dy (snd (ps ! i))"
  by (simp add: offset_def heights_def take_Suc_conv_app_nth)

lemma offset_mono: "i \<le> j \<Longrightarrow> offset ps i \<le> offset ps j"
proof -
  assume "i \<le> j"
  then obtain k where j: "j = i + k" by (auto simp: le_iff_add)
  show ?thesis by (simp add: j offset_def heights_def take_add)
qed

lemma offset_below:
  "i < j \<Longrightarrow> j < length ps \<Longrightarrow> offset ps i + Dy (snd (ps ! i)) \<le> offset ps j"
  using offset_mono [of "Suc i" j ps] by (simp add: offset_Suc)

lemma offset_le_heights: "offset ps i \<le> heights ps"
  using offset_mono [of i "max i (length ps)" ps] by (simp add: offset_def)

lemma offset_end:
  "i < length ps \<Longrightarrow> offset ps i + Dy (snd (ps ! i)) \<le> heights ps"
  using offset_le_heights [of ps "Suc i"] by (simp add: offset_Suc)

lemma Dx_strip_of [simp]: "Dx (strip_of W acc) = W"
  by (simp add: strip_of_def NewRGBA_def)

lemma Dy_strip_of [simp]: "Dy (strip_of W acc) = heights acc"
  by (simp add: strip_of_def NewRGBA_def)

lemma At_strip_of:
  assumes "i < length acc" "x < W" "x < Dx (snd (acc ! i))" "r < Dy (snd (acc ! i))"
  shows "At (strip_of W acc) x (offset acc i + r) = At (snd (acc ! i)) x r"
proof -
  have "At (drawImages (map snd acc) W 0 (NewRGBA W (heights acc))) x
          (0 + sum_list (map Dy (take i (map snd acc))) + r) = At (map snd acc ! i) x r"
    using assms by (intro At_drawImages_page) (auto simp: NewRGBA_def heights_def comp_def)
  then show ?thesis
    using assms by (simp add: strip_of_def offset_def heights_def take_map comp_def)
qed

lemma CreateWebtoonStrip_eq:
  assumes "zip_OpenReader L path = Some fs"
    and "\<forall>f\<in>set (sort_Slice L less_Name fs). \<not> fatal_entry f"
  shows "CreateWebtoonStrip L path =
     (let ps = decoded_pages L (sort_Slice L less_Name fs) in
      if ps = [] then Inl NoValidPagesError
      else Inr (strip_of (widthAfter 0 ps) (accepted 0 ps)))"
  using assms
  by (simp add: CreateWebtoonStrip_def processFiles_ok foldl_acceptPage init_state_def
      strip_of_def accepted_Nil_iff Let_def)

lemma CreateWebtoonStrip_fatal:
  assumes "zip_OpenReader L path = Some fs"
    and "f \<in> set (sort_Slice L less_Name fs)" "fatal_entry f"
  shows "\<exists>g\<in>set (sort_Slice L less_Name fs). fatal_entry g \<and>
           CreateWebtoonStrip L path = Inl (entry_error g)"
proof -
  obtain e where e: "processFiles L (sort_Slice L less_Name fs) init_state = Inl e"
    using processFiles_fatal_Inl [OF assms(2,3)] by blast
  from processFiles_Inl [OF e] e assms(1) show ?thesis
    by (auto simp: CreateWebtoonStrip_def)
qed

lemma set_sort_Slice: "sort_Slice_ok L lt fs \<Longrightarrow> set (sort_Slice L lt fs) = set fs"
  by (auto simp: sort_Slice_ok_def dest: mset_eq_setD)

lemma mset_decoded_pages:
  "mset (decoded_pages L fs) =
     image_mset (\<lambda>f. (f, the (page_of L f))) (filter_mset (\<lambda>f. page_of L f \<noteq> None) (mset fs))"
  by (induction fs) (auto split: option.splits)

lemma heights_mset: "mset ps = mset qs \<Longrightarrow> heights ps = heights qs"
proof -
  assume eq: "mset ps = mset qs"
  have "heights xs = sum_mset (image_mset (\<lambda>p. Dy (snd p)) (mset xs))"
    for xs :: "('a \<times> image) list"
    by (simp add: heights_def flip: sum_mset_sum_list)
  with eq show ?thesis by simp
qed

lemma decoded_pages_perm:
  assumes "sort_Slice_ok L lt fs"
  shows "heights (decoded_pages L (sort_Slice L lt fs)) = heights (decoded_pages L fs)"
    and "set (decoded_pages L (sort_Slice L lt fs)) = set (decoded_pages L fs)"
proof -
  have m: "mset (decoded_pages L (sort_Slice L lt fs)) = mset (decoded_pages L fs)"
    using assms by (simp add: mset_decoded_pages sort_Slice_ok_def)
  show "heights (decoded_pages L (sort_Slice L lt fs)) = heights (decoded_pages L fs)"
    by (rule heights_mset [OF m])
  show "set (decoded_pages L (sort_Slice L lt fs)) = set (decoded_pages L fs)"
    by (rule mset_eq_setD [OF m])
qed

lemma accepted_index_order:
  assumes sorted: "sort_Slice_ok L less_Name fs"
    and i: "i < length (accepted w (decoded_pages L (sort_Slice L less_Name fs)))"
    and j: "j < length (accepted w (decoded_pages L (sort_Slice L less_Name fs)))"
    and lt: "Name (fst (accepted w (decoded_pages L (sort_Slice L less_Name fs)) ! i)) <
             Name (fst (accepted w (decoded_pages L (sort_Slice L less_Name fs)) ! j))"
  shows "i < j"
proof -
  let ?acc = "accepted w (decoded_pages L (sort_Slice L less_Name fs))"
  have "sorted_wrt (\<lambda>a b. \<not> less_Name b a) (sort_Slice L less_Name fs)"
    using sorted by (simp add: sort_Slice_ok_def)
  then have "sorted_wrt (\<lambda>a b. \<not> less_Name (fst b) (fst a)) ?acc"
    by (intro sorted_wrt_accepted sorted_wrt_decoded_pages)
  then have ord: "\<not> Name (fst (?acc ! l)) < Name (fst (?acc ! k))"
    if "k < l" "l < length ?acc" for k l
    using that by (auto simp: sorted_wrt_iff_nth_less less_Name_def)
  show ?thesis
  proof (rule ccontr)
    assume "\<not> i < j"
    then have "j < i \<or> j = i" by auto
    then show False using ord [of j i] i lt by auto
  qed
qed

lemma mset_two_elements:
  assumes "mset xs = {#a, b#}"
  shows "xs = [a, b] \<or> xs = [b, a]"
proof -
  have "size (mset xs) = 2" by (simp add: assms)
  then have "length xs = 2" by simp
  then obtain x y where xs: "xs = [x, y]"
    by (cases xs; cases "tl xs") auto
  with assms show ?thesis
    by (auto simp: add_eq_conv_ex)
qed

lemma entry_error_neq [simp]:
  "entry_error f \<noteq> NoValidPagesError" "entry_error f \<noteq> ArchiveOpenError"
  by (simp_all add: entry_error_def split: entry_content.splits)

lemma images_foldl_acceptPage:
  "images (foldl acceptPage st (map snd ps)) =
     images st @ map snd (accepted (commonWidth st) ps)"
  by (subst foldl_acceptPage) simp

lemma offset_0 [simp]: "offset ps 0 = 0"
  by (simp add: offset_def heights_def)

lemma acceptPage_first:
  "acceptPage init_state img = \<lparr>images = [img], totalHeight = Dy img, commonWidth = Dx img\<rparr>"
  by (simp add: acceptPage_def init_state_def)

lemma acceptPage_same_width:
  "commonWidth st \<noteq> 0 \<Longrightarrow> Dx img = commonWidth st \<Longrightarrow>
   acceptPage st img = st\<lparr>images := images st @ [img], totalHeight := totalHeight st + Dy img\<rparr>"
  by (simp add: acceptPage_def)

lemma acceptPage_other_width:
  "commonWidth st \<noteq> 0 \<Longrightarrow> Dx img \<noteq> commonWidth st \<Longrightarrow> acceptPage st img = st"
  by (simp add: acceptPage_def)

lemma heights_append [simp]: "heights (xs @ ys) = heights xs + heights ys"
  by (simp add: heights_def)

lemma heights_Cons [simp]: "heights (p # ps) = Dy (snd p) + heights ps"
  by (simp add: heights_def)

lemma heights_Nil [simp]: "heights [] = 0"
  by (simp add: heights_def)

lemma streamPNG_error: "streamPNG L img = Inl e \<Longrightarrow> e = EncodeError"
  by (simp add: streamPNG_def split: option.splits)

lemma processFiles_append:
  "processFiles L (xs @ ys) st =
     (case processFiles L xs st of Inl e \<Rightarrow> Inl e | Inr st' \<Rightarrow> processFiles L ys st')"
proof (induction xs arbitrary: st)
  case Nil
  then show ?case by simp
next
  case (Cons f xs)
  show ?case
  proof (cases "fatal_entry f")
    case True
    then show ?thesis
      using processFiles_fatal [of f L "xs @ ys" st] processFiles_fatal [of f L xs st]
      by simp
  next
    case nf: False
    show ?thesis
    proof (cases "page_of L f")
      case None
      then show ?thesis
        using processFiles_skip [OF nf None, of "xs @ ys" st] processFiles_skip [OF nf None, of xs st]
          Cons.IH [of st]
        by simp
    next
      case (Some img)
      then show ?thesis
        using processFiles_page [OF Some, of "xs @ ys" st] processFiles_page [OF Some, of xs st]
          Cons.IH [of "acceptPage st img"]
        by simp
    qed
  qed
qed

subsection \<open>Evaluation on the concrete archives\<close>

lemmas demo_files =
  file_p0_def file_p1_def file_p2_def file_p3_def file_p4_def file_p5_def
  file_cover_def file_notes_def file_thumbs_def

lemma demo_isImageFile:
  "isImageFile (Name file_p0)" "isImageFile (Name file_p1)" "isImageFile (Name file_p2)"
  "isImageFile (Name file_p3)" "isImageFile (Name file_p4)" "isImageFile (Name file_p5)"
  "isImageFile (Name file_cover)" "\<not> isImageFile (Name file_notes)"
  "\<not> isImageFile (Name file_thumbs)"
  by (simp_all add: demo_files) code_simp+

lemma demo_fatal:
  "\<not> fatal_entry file_p0" "\<not> fatal_entry file_p1" "\<not> fatal_entry file_p2"
  "\<not> fatal_entry file_p3" "fatal_entry file_p4" "\<not> fatal_entry file_p5"
  "fatal_entry file_cover" "\<not> fatal_entry file_notes" "\<not> fatal_entry file_thumbs"
  using demo_isImageFile by (simp_all add: fatal_entry_def) (simp_all add: demo_files)

lemma demo_page_of:
  "page_of demo_lib file_p0 = Some (page 0 0 1)"
  "page_of demo_lib file_p1 = Some (page 2 3 5)"
  "page_of demo_lib file_p2 = Some (page 2 2 7)"
  "page_of demo_lib file_p3 = None"
  "page_of demo_lib file_p4 = None"
  "page_of demo_lib file_p5 = Some (page 3 4 9)"
  "page_of demo_lib file_cover = None"
  "page_of demo_lib file_notes = None"
  "page_of demo_lib file_thumbs = None"
  using demo_isImageFile
  by (simp_all add: page_of_def)
     (simp_all add: demo_files decodeImage_def demo_lib_def demo_decode_def)

lemma demo_sort:
  "sort_Slice demo_lib less_Name [file_p2, file_notes, file_p1, file_p3] =
     [file_notes, file_p1, file_p2, file_p3]"
  "sort_Slice demo_lib less_Name [file_p4, file_p1] = [file_p1, file_p4]"
  "sort_Slice demo_lib less_Name [file_p1, file_cover] = [file_cover, file_p1]"
  "sort_Slice demo_lib less_Name [file_thumbs, file_notes] = [file_notes, file_thumbs]"
  "sort_Slice demo_lib less_Name [file_p5, file_p1] = [file_p1, file_p5]"
  "sort_Slice demo_lib less_Name [file_p5, file_p1, file_p0] = [file_p0, file_p1, file_p5]"
  "sort_Slice demo_lib less_Name [file_p3, file_p2, file_p1] = [file_p1, file_p2, file_p3]"
  by (simp_all add: demo_lib_def sort_by_def less_Name_def demo_files)

lemma demo_sort_ok:
  "sort_Slice_ok demo_lib less_Name [file_p2, file_notes, file_p1, file_p3]"
  "sort_Slice_ok demo_lib less_Name [file_p4, file_p1]"
  "sort_Slice_ok demo_lib less_Name [file_p1, file_cover]"
  "sort_Slice_ok demo_lib less_Name [file_thumbs, file_notes]"
  "sort_Slice_ok demo_lib less_Name [file_p5, file_p1]"
  "sort_Slice_ok demo_lib less_Name [file_p5, file_p1, file_p0]"
  "sort_Slice_ok demo_lib less_Name [file_p3, file_p2, file_p1]"
  unfolding sort_Slice_ok_def demo_sort
  by (simp_all add: less_Name_def) (simp_all add: demo_files)

lemma demo_open:
  "zip_OpenReader demo_lib ''comic.cbz'' = Some [file_p2, file_notes, file_p1, file_p3]"
  "zip_OpenReader demo_lib ''broken.cbz'' = Some [file_p4, file_p1]"
  "zip_OpenReader demo_lib ''locked.cbz'' = Some [file_p1, file_cover]"
  "zip_OpenReader demo_lib ''empty.cbz'' = Some [file_thumbs, file_notes]"
  "zip_OpenReader demo_lib ''mixed.cbz'' = Some [file_p5, file_p1]"
  "zip_OpenReader demo_lib ''zero.cbz'' = Some [file_p5, file_p1, file_p0]"
  "zip_OpenReader demo_lib ''three.cbz'' = Some [file_p3, file_p2, file_p1]"
  "zip_OpenReader demo_lib ''missing.cbz'' = None"
  by (simp_all add: demo_lib_def)

lemma demo_page_dims [simp]: "Dx (page w h k) = w" "Dy (page w h k) = h"
  "At (page w h k) x y = RGBA (of_nat x) (of_nat y) k 255"
  by (simp_all add: page_def)

lemma processFiles_eval:
  "processFiles demo_lib [file_p1, file_p4] init_state = Inl (EntryReadError ''p4.png'')"
  "processFiles demo_lib [file_cover, file_p1] init_state = Inl (EntryOpenError ''cover.jpeg'')"
  by (simp_all add: processFiles_page processFiles_fatal demo_page_of demo_fatal entry_error_def
        del: processFiles.simps) (simp_all add: demo_files)

lemma comic_pages:
  "decoded_pages demo_lib (sort_Slice demo_lib less_Name [file_p2, file_notes, file_p1, file_p3]) =
     [(file_p1, page 2 3 5), (file_p2, page 2 2 7)]"
  by (simp add: demo_sort demo_page_of)

lemma comic_strip:
  "CreateWebtoonStrip demo_lib ''comic.cbz'' =
     Inr (strip_of 2 [(file_p1, page 2 3 5), (file_p2, page 2 2 7)])"
  using CreateWebtoonStrip_eq [OF demo_open(1)]
  by (simp add: demo_sort demo_fatal demo_page_of)

lemma mixed_strip:
  "CreateWebtoonStrip demo_lib ''mixed.cbz'' = Inr (strip_of 2 [(file_p1, page 2 3 5)])"
  using CreateWebtoonStrip_eq [OF demo_open(5)]
  by (simp add: demo_sort demo_fatal demo_page_of)

lemma zero_pages:
  "decoded_pages demo_lib (sort_Slice demo_lib less_Name [file_p5, file_p1, file_p0]) =
     [(file_p0, page 0 0 1), (file_p1, page 2 3 5), (file_p5, page 3 4 9)]"
  by (simp add: demo_sort demo_page_of)

section \<open>Properties of the program\<close>

subsection \<open>C1: dimensions of the strip\<close>

text \<open>
  Claim C1, with the condition it needs: for every archive that opens, in which no
  entry with an image extension fails to open or to be read, at least one such entry
  decodes and all decoded pages have the same width \<open>W\<close>, \<open>CreateWebtoonStrip\<close> returns
  an image of width \<open>W\<close> whose height is the sum of the heights of the decoded pages.
\<close>

theorem C1_strip_dimensions:
  assumes opened: "zip_OpenReader L path = Some fs"
    and sorted: "sort_Slice_ok L less_Name fs"
    and readable: "\<forall>f\<in>set fs. \<not> fatal_entry f"
    and some: "decoded_pages L fs \<noteq> []"
    and same: "\<forall>p\<in>set (decoded_pages L fs). Dx (snd p) = W"
  shows "\<exists>strip. CreateWebtoonStrip L path = Inr strip \<and> Dx strip = W \<and>
           Dy strip = heights (decoded_pages L fs)"
proof -
  let ?ps = "decoded_pages L (sort_Slice L less_Name fs)"
  have ne: "?ps \<noteq> []"
    using some decoded_pages_perm(2) [OF sorted] by (metis set_empty)
  have w: "\<forall>p\<in>set ?ps. Dx (snd p) = W"
    using same decoded_pages_perm(2) [OF sorted] by simp
  have nf: "\<forall>f\<in>set (sort_Slice L less_Name fs). \<not> fatal_entry f"
    using readable set_sort_Slice [OF sorted] by simp
  have "CreateWebtoonStrip L path = Inr (strip_of (widthAfter 0 ?ps) (accepted 0 ?ps))"
    using CreateWebtoonStrip_eq [OF opened nf] ne by (simp add: Let_def)
  moreover have "accepted 0 ?ps = ?ps"
    using w by (intro accepted_same_width) auto
  moreover have "widthAfter 0 ?ps = W"
    using w ne by (intro widthAfter_same_width) auto
  ultimately show ?thesis
    by (simp add: decoded_pages_perm(1) [OF sorted])
qed

text \<open>
  The archive \<open>comic.cbz\<close>: two pages of width 2 and heights 2 and 3, a text file and
  an entry that does not decode. The strip is 2 wide and 5 high.
\<close>

theorem C1_strip_dimensions_witness:
  "zip_OpenReader demo_lib ''comic.cbz'' = Some [file_p2, file_notes, file_p1, file_p3] \<and>
   sort_Slice_ok demo_lib less_Name [file_p2, file_notes, file_p1, file_p3] \<and>
   \<not> fatal_entry file_p2 \<and> \<not> fatal_entry file_notes \<and> \<not> fatal_entry file_p1 \<and>
   \<not> fatal_entry file_p3 \<and>
   decoded_pages demo_lib [file_p2, file_notes, file_p1, file_p3] =
     [(file_p2, page 2 2 7), (file_p1, page 2 3 5)] \<and>
   \<not> isl (CreateWebtoonStrip demo_lib ''comic.cbz'') \<and>
   Dx (projr (CreateWebtoonStrip demo_lib ''comic.cbz'')) = 2 \<and>
   Dy (projr (CreateWebtoonStrip demo_lib ''comic.cbz'')) = 5"
proof -
  have "\<exists>strip. CreateWebtoonStrip demo_lib ''comic.cbz'' = Inr strip \<and> Dx strip = 2 \<and>
          Dy strip = heights (decoded_pages demo_lib [file_p2, file_notes, file_p1, file_p3])"
    by (rule C1_strip_dimensions [OF demo_open(1) demo_sort_ok(1)])
       (simp_all add: demo_fatal demo_page_of)
  then show ?thesis
    by (auto simp: demo_open demo_sort_ok demo_fatal demo_page_of heights_def)
qed

text \<open>
  Without the condition on reading, C1 fails: in \<open>broken.cbz\<close> the entry \<open>p1.jpg\<close>
  decodes to a page of width 2 and is the only decoded page, but \<open>p4.png\<close> cannot be
  read, and \<open>CreateWebtoonStrip\<close> returns the error of line 101 instead of an image.
\<close>

theorem C1_counterexample:
  "zip_OpenReader demo_lib ''broken.cbz'' = Some [file_p4, file_p1] \<and>
   sort_Slice_ok demo_lib less_Name [file_p4, file_p1] \<and>
   decoded_pages demo_lib [file_p4, file_p1] = [(file_p1, page 2 3 5)] \<and>
   Dx (page 2 3 5) = 2 \<and>
   CreateWebtoonStrip demo_lib ''broken.cbz'' = Inl (EntryReadError ''p4.png'')"
  by (simp add: demo_open demo_sort_ok demo_page_of CreateWebtoonStrip_def demo_sort
      processFiles_eval del: processFiles.simps)

subsection \<open>C2: pages are stacked in the order of their names\<close>

text \<open>
  Claim C2: whenever \<open>CreateWebtoonStrip\<close> returns an image, the images the loop kept are
  the pages of \<open>acc\<close>, each the decoding of an entry of the archive; the \<open>i\<close>-th of them
  fills the rows from \<open>offset acc i\<close> on, row by row from top to bottom, inside the strip;
  and if the name of one kept entry is less than the name of another, bytewise, the rows
  of the first end where the rows of the second begin, or above. The order in which the
  archive stores its entries plays no part.
\<close>

theorem C2_pages_in_name_order:
  assumes opened: "zip_OpenReader L path = Some fs"
    and sorted: "sort_Slice_ok L less_Name fs"
    and result: "CreateWebtoonStrip L path = Inr strip"
    and acc: "acc = accepted 0 (decoded_pages L (sort_Slice L less_Name fs))"
  shows "(\<exists>st. processFiles L (sort_Slice L less_Name fs) init_state = Inr st \<and>
              images st = map snd acc) \<and>
         (\<forall>p\<in>set acc. fst p \<in> set fs \<and> page_of L (fst p) = Some (snd p)) \<and>
         (\<forall>i<length acc.
            offset acc i + Dy (snd (acc ! i)) \<le> Dy strip \<and>
            (\<forall>x<Dx (snd (acc ! i)). \<forall>r<Dy (snd (acc ! i)).
               At strip x (offset acc i + r) = At (snd (acc ! i)) x r)) \<and>
         (\<forall>i<length acc. \<forall>j<length acc.
            Name (fst (acc ! i)) < Name (fst (acc ! j)) \<longrightarrow>
            offset acc i + Dy (snd (acc ! i)) \<le> offset acc j)"
proof -
  let ?sorted = "sort_Slice L less_Name fs"
  let ?ps = "decoded_pages L ?sorted"
  obtain st where st: "processFiles L ?sorted init_state = Inr st"
    using result opened by (auto simp: CreateWebtoonStrip_def split: sum.splits)
  have nf: "\<forall>f\<in>set ?sorted. \<not> fatal_entry f"
    by (rule processFiles_Inr [OF st])
  have st_eq: "st = foldl acceptPage init_state (map snd ?ps)"
    using st by (simp add: processFiles_ok [OF nf])
  have imgs: "images st = map snd acc"
    by (simp add: st_eq foldl_acceptPage acc init_state_def)
  have strip: "strip = strip_of (widthAfter 0 ?ps) acc"
    using CreateWebtoonStrip_eq [OF opened nf] result
    by (auto simp: Let_def acc split: if_splits)
  have mem: "fst p \<in> set fs \<and> page_of L (fst p) = Some (snd p)" if "p \<in> set acc" for p
  proof -
    have "p \<in> set ?ps" using that set_accepted [of 0 ?ps] by (auto simp: acc)
    then have "(fst p, snd p) \<in> set ?ps" by simp
    then show ?thesis
      unfolding set_decoded_pages using set_sort_Slice [OF sorted] by simp
  qed
  have rows: "offset acc i + Dy (snd (acc ! i)) \<le> Dy strip \<and>
      (\<forall>x<Dx (snd (acc ! i)). \<forall>r<Dy (snd (acc ! i)).
         At strip x (offset acc i + r) = At (snd (acc ! i)) x r)"
    if i: "i < length acc" for i
  proof -
    have "acc ! i \<in> set (accepted 0 ?ps)" using i by (simp add: acc)
    then have wd: "Dx (snd (acc ! i)) = 0 \<or> Dx (snd (acc ! i)) = widthAfter 0 ?ps"
      by (rule accepted_widths)
    have "At strip x (offset acc i + r) = At (snd (acc ! i)) x r"
      if "x < Dx (snd (acc ! i))" "r < Dy (snd (acc ! i))" for x r
      unfolding strip using i that wd by (intro At_strip_of) auto
    then show ?thesis using offset_end [OF i] by (simp add: strip)
  qed
  have order: "offset acc i + Dy (snd (acc ! i)) \<le> offset acc j"
    if "i < length acc" "j < length acc" "Name (fst (acc ! i)) < Name (fst (acc ! j))" for i j
  proof -
    have "i < j" using that accepted_index_order [OF sorted, of i 0 j] by (simp add: acc)
    then show ?thesis using that by (intro offset_below)
  qed
  from st imgs mem rows order show ?thesis by blast
qed

text \<open>
  In \<open>comic.cbz\<close> the archive stores \<open>p2.PNG\<close> before \<open>p1.jpg\<close>. The strip has the three rows of
  \<open>p1.jpg\<close> first, then the two rows of \<open>p2.PNG\<close>.
\<close>

theorem C2_pages_in_name_order_witness:
  "zip_OpenReader demo_lib ''comic.cbz'' = Some [file_p2, file_notes, file_p1, file_p3] \<and>
   sort_Slice_ok demo_lib less_Name [file_p2, file_notes, file_p1, file_p3] \<and>
   \<not> isl (CreateWebtoonStrip demo_lib ''comic.cbz'') \<and>
   accepted 0 (decoded_pages demo_lib
     (sort_Slice demo_lib less_Name [file_p2, file_notes, file_p1, file_p3])) =
     [(file_p1, page 2 3 5), (file_p2, page 2 2 7)] \<and>
   Name file_p1 < Name file_p2 \<and>
   offset [(file_p1, page 2 3 5), (file_p2, page 2 2 7)] 0 + 3 \<le>
     offset [(file_p1, page 2 3 5), (file_p2, page 2 2 7)] 1 \<and>
   At (projr (CreateWebtoonStrip demo_lib ''comic.cbz'')) 1 2 = RGBA 1 2 5 255 \<and>
   At (projr (CreateWebtoonStrip demo_lib ''comic.cbz'')) 1 4 = RGBA 1 1 7 255"
proof -
  let ?acc = "[(file_p1, page 2 3 5), (file_p2, page 2 2 7)]"
  have acc: "?acc = accepted 0 (decoded_pages demo_lib
     (sort_Slice demo_lib less_Name [file_p2, file_notes, file_p1, file_p3]))"
    by (simp add: comic_pages)
  have names: "Name file_p1 < Name file_p2"
    by (simp add: demo_files)
  have off: "offset ?acc 0 = 0" "offset ?acc 1 = 3"
    by (simp_all add: offset_def heights_def)
  note main = C2_pages_in_name_order [OF demo_open(1) demo_sort_ok(1) comic_strip acc]
  have len: "length ?acc = 2" by simp
  have rows: "At (strip_of 2 ?acc) x (offset ?acc i + r) = At (snd (?acc ! i)) x r"
    if "i < length ?acc" "x < Dx (snd (?acc ! i))" "r < Dy (snd (?acc ! i))" for i x r
    using main that by blast
  have order: "offset ?acc i + Dy (snd (?acc ! i)) \<le> offset ?acc j"
    if "i < length ?acc" "j < length ?acc" "Name (fst (?acc ! i)) < Name (fst (?acc ! j))"
    for i j
    using main that by blast
  have o01: "offset ?acc 0 + Dy (snd (?acc ! 0)) \<le> offset ?acc 1"
    by (rule order) (simp_all add: names)
  have r0: "At (strip_of 2 ?acc) 1 (offset ?acc 0 + 2) = At (snd (?acc ! 0)) 1 2"
    by (rule rows) simp_all
  have r1: "At (strip_of 2 ?acc) 1 (offset ?acc 1 + 1) = At (snd (?acc ! 1)) 1 1"
    by (rule rows) simp_all
  have o01': "offset ?acc 0 + 3 \<le> offset ?acc 1"
    using o01 by simp
  have r0': "At (strip_of 2 ?acc) 1 2 = RGBA 1 2 5 255"
    using r0 unfolding off by (simp add: numeral_2_eq_2)
  have r1': "At (strip_of 2 ?acc) 1 4 = RGBA 1 1 7 255"
    using r1 unfolding off by simp
  show ?thesis
    unfolding comic_strip comic_pages
    using o01' r0' r1' names demo_open(1) demo_sort_ok(1) by simp
qed

subsection \<open>C3: the errors CreateWebtoonStrip returns\<close>

text \<open>
  Claim C3, as the code has it: when \<open>CreateWebtoonStrip\<close> returns an error, either the
  archive did not open, or an entry with an image extension could not be opened or could
  not be read (the error names that entry), or all entries were processed and no page
  was kept. A decoding failure or a width mismatch is never returned. The error of the
  encoder arises in \<open>streamPNG\<close>, not here.
\<close>

theorem C3_failure_outcomes:
  assumes opened: "zip_OpenReader L path = None \<or>
      (\<exists>fs. zip_OpenReader L path = Some fs \<and> sort_Slice_ok L less_Name fs)"
    and failure: "CreateWebtoonStrip L path = Inl e"
  shows "(zip_OpenReader L path = None \<and> e = ArchiveOpenError) \<or>
         (\<exists>fs. zip_OpenReader L path = Some fs \<and>
            ((\<exists>f\<in>set fs. isImageFile (Name f) \<and> Content f = OpenFails \<and>
                 e = EntryOpenError (Name f)) \<or>
             (\<exists>f\<in>set fs. isImageFile (Name f) \<and> Content f = ReadFails \<and>
                 e = EntryReadError (Name f)) \<or>
             (e = NoValidPagesError \<and> (\<forall>f\<in>set fs. \<not> fatal_entry f \<and> page_of L f = None))))"
proof (cases "zip_OpenReader L path")
  case None
  with failure show ?thesis by (simp add: CreateWebtoonStrip_def)
next
  case (Some fs)
  then have sorted: "sort_Slice_ok L less_Name fs" using opened by auto
  let ?sorted = "sort_Slice L less_Name fs"
  have sets: "set ?sorted = set fs" by (rule set_sort_Slice [OF sorted])
  show ?thesis
  proof (cases "processFiles L ?sorted init_state")
    case (Inl e')
    then have "e' = e" using failure Some by (simp add: CreateWebtoonStrip_def)
    with processFiles_Inl [OF Inl] obtain f
      where f: "f \<in> set fs" "fatal_entry f" "e = entry_error f"
      using sets by auto
    then show ?thesis using Some
      by (auto simp: fatal_entry_def entry_error_def)
  next
    case (Inr st)
    have nf: "\<forall>f\<in>set ?sorted. \<not> fatal_entry f" by (rule processFiles_Inr [OF Inr])
    have res: "CreateWebtoonStrip L path =
       (let ps = decoded_pages L ?sorted in
        if ps = [] then Inl NoValidPagesError
        else Inr (strip_of (widthAfter 0 ps) (accepted 0 ps)))"
      by (rule CreateWebtoonStrip_eq [OF Some nf])
    with failure have e: "e = NoValidPagesError" and none: "decoded_pages L ?sorted = []"
      by (auto simp: Let_def split: if_splits)
    have "page_of L f = None" if "f \<in> set fs" for f
    proof (cases "page_of L f")
      case None
      then show ?thesis .
    next
      case (Some img)
      then have "(f, img) \<in> set (decoded_pages L ?sorted)"
        using that sets by (simp add: set_decoded_pages)
      with none show ?thesis by simp
    qed
    with nf sets e Some show ?thesis by auto
  qed
qed

text \<open>
  The archive \<open>empty.cbz\<close> holds no entry with an image extension: it opens, nothing is
  fatal, nothing decodes, and the error is the one of line 126.
\<close>

theorem C3_failure_outcomes_witness:
  "(zip_OpenReader demo_lib ''empty.cbz'' = None \<or>
      (\<exists>fs. zip_OpenReader demo_lib ''empty.cbz'' = Some fs \<and>
         sort_Slice_ok demo_lib less_Name fs)) \<and>
   CreateWebtoonStrip demo_lib ''empty.cbz'' = Inl NoValidPagesError \<and>
   zip_OpenReader demo_lib ''empty.cbz'' \<noteq> None \<and>
   \<not> fatal_entry file_thumbs \<and> page_of demo_lib file_thumbs = None \<and>
   \<not> fatal_entry file_notes \<and> page_of demo_lib file_notes = None"
proof -
  have res: "CreateWebtoonStrip demo_lib ''empty.cbz'' = Inl NoValidPagesError"
    using CreateWebtoonStrip_eq [OF demo_open(4)]
    by (simp add: demo_sort demo_fatal demo_page_of)
  have pre: "zip_OpenReader demo_lib ''empty.cbz'' = None \<or>
      (\<exists>fs. zip_OpenReader demo_lib ''empty.cbz'' = Some fs \<and>
         sort_Slice_ok demo_lib less_Name fs)"
    by (simp add: demo_open demo_sort_ok)
  from C3_failure_outcomes [OF pre res] pre
  show ?thesis
    by (simp add: demo_open res)
qed

text \<open>
  C3 as it is written fails on \<open>locked.cbz\<close>: the entry \<open>cover.jpeg\<close> cannot be opened, and
  the error of line 95 is returned, which is none of the three errors C3 allows.
\<close>

theorem C3_counterexample:
  "CreateWebtoonStrip demo_lib ''locked.cbz'' = Inl (EntryOpenError ''cover.jpeg'') \<and>
   EntryOpenError ''cover.jpeg'' \<noteq> ArchiveOpenError \<and>
   EntryOpenError ''cover.jpeg'' \<noteq> NoValidPagesError \<and>
   EntryOpenError ''cover.jpeg'' \<noteq> EncodeError"
  by (simp add: CreateWebtoonStrip_def demo_open demo_sort processFiles_eval
      del: processFiles.simps)

subsection \<open>C4: the first decoded page and the common width\<close>

text \<open>
  Claim C4 says that the first decoded page fixes the width of the strip and that every
  later page of another width is dropped. The loop tests \<^verbatim>\<open>commonWidth == 0\<close> to find out
  whether a width was fixed, while line 125 tests \<^verbatim>\<open>len(images) == 0\<close> to find out whether
  a page was kept. The two tests differ when the first decoded page has width 0. In the
  archive \<open>zero.cbz\<close> the pages in name order have the widths 0, 2 and 3: after the
  first page is kept the width is still 0, the second page has another width than the
  first and is kept all the same, and the strip has the width 2 of the second page.
\<close>

theorem C4_zero_width_first_page:
  "decoded_pages demo_lib (sort_Slice demo_lib less_Name [file_p5, file_p1, file_p0]) =
     [(file_p0, page 0 0 1), (file_p1, page 2 3 5), (file_p5, page 3 4 9)] \<and>
   acceptPage init_state (page 0 0 1) =
     \<lparr>images = [page 0 0 1], totalHeight = 0, commonWidth = 0\<rparr> \<and>
   Dx (page 2 3 5) \<noteq> Dx (page 0 0 1) \<and>
   acceptPage \<lparr>images = [page 0 0 1], totalHeight = 0, commonWidth = 0\<rparr> (page 2 3 5) =
     \<lparr>images = [page 0 0 1, page 2 3 5], totalHeight = 3, commonWidth = 2\<rparr> \<and>
   processFiles demo_lib (sort_Slice demo_lib less_Name [file_p5, file_p1, file_p0]) init_state =
     Inr \<lparr>images = [page 0 0 1, page 2 3 5], totalHeight = 3, commonWidth = 2\<rparr> \<and>
   CreateWebtoonStrip demo_lib ''zero.cbz'' =
     Inr (strip_of 2 [(file_p0, page 0 0 1), (file_p1, page 2 3 5)])"
proof -
  let ?sorted = "sort_Slice demo_lib less_Name [file_p5, file_p1, file_p0]"
  have nf: "\<forall>f\<in>set ?sorted. \<not> fatal_entry f"
    by (simp add: demo_sort demo_fatal)
  have a1: "acceptPage init_state (page 0 0 1) =
     \<lparr>images = [page 0 0 1], totalHeight = 0, commonWidth = 0\<rparr>"
    by (simp add: acceptPage_first)
  have a2: "acceptPage \<lparr>images = [page 0 0 1], totalHeight = 0, commonWidth = 0\<rparr> (page 2 3 5) =
     \<lparr>images = [page 0 0 1, page 2 3 5], totalHeight = 3, commonWidth = 2\<rparr>"
    by (simp add: acceptPage_def)
  have a3: "acceptPage \<lparr>images = [page 0 0 1, page 2 3 5], totalHeight = 3, commonWidth = 2\<rparr>
      (page 3 4 9) =
     \<lparr>images = [page 0 0 1, page 2 3 5], totalHeight = 3, commonWidth = 2\<rparr>"
    by (simp add: acceptPage_def)
  have run: "processFiles demo_lib ?sorted init_state =
     Inr \<lparr>images = [page 0 0 1, page 2 3 5], totalHeight = 3, commonWidth = 2\<rparr>"
    unfolding processFiles_ok [OF nf] zero_pages by (simp add: a1 a2 a3)
  have res: "CreateWebtoonStrip demo_lib ''zero.cbz'' =
     Inr (strip_of 2 [(file_p0, page 0 0 1), (file_p1, page 2 3 5)])"
    using CreateWebtoonStrip_eq [OF demo_open(6) nf] unfolding zero_pages by simp
  from zero_pages a1 a2 run res show ?thesis by simp
qed

subsection \<open>C5: an entry that does not decode is skipped\<close>

text \<open>
  Claim C5: if the bytes of an entry with an image extension were read and no decoder
  accepts them, the loop goes on with the next entry and the same variables. In
  particular an archive of three entries, two of which decode to pages of the same width
  \<open>W\<close> while the third does not decode, gives a strip of width \<open>W\<close> made of the rows of
  the first page followed by the rows of the second, and no error.
\<close>

theorem C5_decode_failure_skipped:
  assumes candidate: "isImageFile (Name f3)"
    and read: "Content f3 = Bytes data"
    and fails: "snd (decodeImage L data) = Inl err"
  shows "(\<forall>files st. processFiles L (f3 # files) st = processFiles L files st) \<and>
         (\<forall>path fs f1 f2 p1 p2 W.
            zip_OpenReader L path = Some fs \<and> sort_Slice_ok L less_Name fs \<and>
            mset fs = {#f1, f2, f3#} \<and> Name f1 < Name f2 \<and>
            page_of L f1 = Some p1 \<and> page_of L f2 = Some p2 \<and> Dx p1 = W \<and> Dx p2 = W \<longrightarrow>
            (\<exists>strip. CreateWebtoonStrip L path = Inr strip \<and>
               Dx strip = W \<and> Dy strip = Dy p1 + Dy p2 \<and>
               (\<forall>x<W. \<forall>r<Dy p1. At strip x r = At p1 x r) \<and>
               (\<forall>x<W. \<forall>r<Dy p2. At strip x (Dy p1 + r) = At p2 x r)))"
proof (intro conjI allI impI)
  fix files st
  show "processFiles L (f3 # files) st = processFiles L files st"
    using candidate read fails by simp
next
  fix path fs f1 f2 p1 p2 W
  assume h: "zip_OpenReader L path = Some fs \<and> sort_Slice_ok L less_Name fs \<and>
            mset fs = {#f1, f2, f3#} \<and> Name f1 < Name f2 \<and>
            page_of L f1 = Some p1 \<and> page_of L f2 = Some p2 \<and> Dx p1 = W \<and> Dx p2 = W"
  let ?sorted = "sort_Slice L less_Name fs"
  let ?ps = "decoded_pages L ?sorted"
  let ?acc = "[(f1, p1), (f2, p2)]"
  from h have opened: "zip_OpenReader L path = Some fs"
    and sorted: "sort_Slice_ok L less_Name fs"
    and three: "mset fs = {#f1, f2, f3#}"
    and names: "Name f1 < Name f2"
    and p1: "page_of L f1 = Some p1" and p2: "page_of L f2 = Some p2"
    and w1: "Dx p1 = W" and w2: "Dx p2 = W"
    by simp_all
  have p3: "page_of L f3 = None"
    using candidate read fails by (simp add: page_of_def)
  have nf3: "\<not> fatal_entry f3" using read by (simp add: fatal_entry_def)
  have m: "mset ?sorted = {#f1, f2, f3#}"
    using sorted three by (simp add: sort_Slice_ok_def)
  have "mset ?ps = {#(f1, p1), (f2, p2)#}"
    unfolding mset_decoded_pages m by (simp add: p1 p2 p3)
  then have two: "?ps = ?acc \<or> ?ps = [(f2, p2), (f1, p1)]"
    by (rule mset_two_elements)
  have "sorted_wrt (\<lambda>a b. \<not> less_Name b a) ?sorted"
    using sorted by (simp add: sort_Slice_ok_def)
  then have srt: "sorted_wrt (\<lambda>a b. \<not> less_Name (fst b) (fst a)) ?ps"
    by (rule sorted_wrt_decoded_pages)
  have ps: "?ps = ?acc"
  proof (rule ccontr)
    assume "?ps \<noteq> ?acc"
    with two have "?ps = [(f2, p2), (f1, p1)]" by blast
    with srt have "\<not> less_Name f1 f2" by simp
    with names show False by (simp add: less_Name_def)
  qed
  have "set ?sorted = set_mset {#f1, f2, f3#}"
    unfolding m [symmetric] by simp
  then have mem: "f = f1 \<or> f = f2 \<or> f = f3" if "f \<in> set ?sorted" for f
    using that by auto
  have nf: "\<forall>f\<in>set ?sorted. \<not> fatal_entry f"
    using mem nf3 page_of_not_fatal [OF p1] page_of_not_fatal [OF p2] by blast
  have acc: "accepted 0 ?acc = ?acc"
    by (rule accepted_same_width [where W = W]) (simp_all add: w1 w2)
  have w: "widthAfter 0 ?acc = W"
    by (rule widthAfter_same_width) (simp_all add: w1 w2)
  have "CreateWebtoonStrip L path =
      (if ?ps = [] then Inl NoValidPagesError
       else Inr (strip_of (widthAfter 0 ?ps) (accepted 0 ?ps)))"
    using CreateWebtoonStrip_eq [OF opened nf] by (simp only: Let_def)
  then have res: "CreateWebtoonStrip L path = Inr (strip_of W ?acc)"
    unfolding ps acc w by simp
  have r1: "At (strip_of W ?acc) x r = At p1 x r" if "x < W" "r < Dy p1" for x r
    using At_strip_of [of 0 ?acc x W r] that w1 by simp
  have r2: "At (strip_of W ?acc) x (Dy p1 + r) = At p2 x r" if "x < W" "r < Dy p2" for x r
    using At_strip_of [of 1 ?acc x W r] that w2 by (simp add: offset_def heights_def)
  have dims: "Dx (strip_of W ?acc) = W" "Dy (strip_of W ?acc) = Dy p1 + Dy p2"
    by (simp_all add: heights_def)
  show "\<exists>strip. CreateWebtoonStrip L path = Inr strip \<and>
               Dx strip = W \<and> Dy strip = Dy p1 + Dy p2 \<and>
               (\<forall>x<W. \<forall>r<Dy p1. At strip x r = At p1 x r) \<and>
               (\<forall>x<W. \<forall>r<Dy p2. At strip x (Dy p1 + r) = At p2 x r)"
    using res r1 r2 dims by blast
qed


text \<open>
  The archive \<open>three.cbz\<close>: \<open>p1.jpg\<close> and \<open>p2.PNG\<close> decode to pages of width 2, the bytes
  of \<open>p3.webp\<close> are cut short and no decoder accepts them.
\<close>

theorem C5_decode_failure_skipped_witness:
  "isImageFile (Name file_p3) \<and> Content file_p3 = Bytes [0x52, 2] \<and>
   snd (decodeImage demo_lib [0x52, 2]) = Inl DecodeError \<and>
   zip_OpenReader demo_lib ''three.cbz'' = Some [file_p3, file_p2, file_p1] \<and>
   sort_Slice_ok demo_lib less_Name [file_p3, file_p2, file_p1] \<and>
   mset [file_p3, file_p2, file_p1] = {#file_p1, file_p2, file_p3#} \<and>
   Name file_p1 < Name file_p2 \<and>
   page_of demo_lib file_p1 = Some (page 2 3 5) \<and>
   page_of demo_lib file_p2 = Some (page 2 2 7) \<and>
   processFiles demo_lib [file_p3] init_state = Inr init_state \<and>
   \<not> isl (CreateWebtoonStrip demo_lib ''three.cbz'') \<and>
   Dx (projr (CreateWebtoonStrip demo_lib ''three.cbz'')) = 2 \<and>
   Dy (projr (CreateWebtoonStrip demo_lib ''three.cbz'')) = 5 \<and>
   At (projr (CreateWebtoonStrip demo_lib ''three.cbz'')) 1 2 = RGBA 1 2 5 255 \<and>
   At (projr (CreateWebtoonStrip demo_lib ''three.cbz'')) 1 4 = RGBA 1 1 7 255"
proof -
  have c: "isImageFile (Name file_p3)" by (rule demo_isImageFile)
  have r: "Content file_p3 = Bytes [0x52, 2]" by (simp add: file_p3_def)
  have d: "snd (decodeImage demo_lib [0x52, 2]) = Inl DecodeError"
    by (simp add: decodeImage_def demo_lib_def demo_decode_def)
  have m: "mset [file_p3, file_p2, file_p1] = {#file_p1, file_p2, file_p3#}" by simp
  have n: "Name file_p1 < Name file_p2" by (simp add: demo_files)
  note main = C5_decode_failure_skipped [OF c r d]
  have skip: "processFiles demo_lib [file_p3] init_state = processFiles demo_lib [] init_state"
    using main by blast
  have "\<exists>strip. CreateWebtoonStrip demo_lib ''three.cbz'' = Inr strip \<and>
      Dx strip = 2 \<and> Dy strip = Dy (page 2 3 5) + Dy (page 2 2 7) \<and>
      (\<forall>x<2. \<forall>r<Dy (page 2 3 5). At strip x r = At (page 2 3 5) x r) \<and>
      (\<forall>x<2. \<forall>r<Dy (page 2 2 7). At strip x (Dy (page 2 3 5) + r) = At (page 2 2 7) x r)"
    using main demo_open(7) demo_sort_ok(7) m n demo_page_of(2,3) demo_page_dims(1) by blast
  then obtain strip where s: "CreateWebtoonStrip demo_lib ''three.cbz'' = Inr strip"
    and dx: "Dx strip = 2" and dy: "Dy strip = Dy (page 2 3 5) + Dy (page 2 2 7)"
    and r1: "\<And>x r. x < 2 \<Longrightarrow> r < Dy (page 2 3 5) \<Longrightarrow> At strip x r = At (page 2 3 5) x r"
    and r2: "\<And>x r. x < 2 \<Longrightarrow> r < Dy (page 2 2 7) \<Longrightarrow>
               At strip x (Dy (page 2 3 5) + r) = At (page 2 2 7) x r"
    by blast
  have a1: "At strip 1 2 = RGBA 1 2 5 255" using r1 [of 1 2] by simp
  have a2: "At strip 1 4 = RGBA 1 1 7 255" using r2 [of 1 1] by simp
  show ?thesis
    unfolding s using c r d m n skip dx dy a1 a2 demo_open(7) demo_sort_ok(7) demo_page_of(2,3)
    by simp
qed

subsection \<open>C6: when no page is kept\<close>

text \<open>
  Claim C6: for an archive that opens, \<open>CreateWebtoonStrip\<close> returns the error of line 126
  exactly when the loop ran to its end and kept no image. That is the case exactly when
  no entry with an image extension fails to open or to be read and none decodes. In
  particular an archive without any entry with an image extension gives this error.
\<close>

theorem C6_no_valid_pages:
  assumes opened: "zip_OpenReader L path = Some fs"
    and sorted: "sort_Slice_ok L less_Name fs"
  shows "(CreateWebtoonStrip L path = Inl NoValidPagesError \<longleftrightarrow>
            (\<exists>st. processFiles L (sort_Slice L less_Name fs) init_state = Inr st \<and>
                  images st = [])) \<and>
         (CreateWebtoonStrip L path = Inl NoValidPagesError \<longleftrightarrow>
            (\<forall>f\<in>set fs. \<not> fatal_entry f \<and> page_of L f = None)) \<and>
         ((\<forall>f\<in>set fs. \<not> isImageFile (Name f)) \<longrightarrow>
            CreateWebtoonStrip L path = Inl NoValidPagesError)"
proof -
  let ?sorted = "sort_Slice L less_Name fs"
  let ?ps = "decoded_pages L ?sorted"
  have sets: "set ?sorted = set fs" by (rule set_sort_Slice [OF sorted])
  have first: "CreateWebtoonStrip L path = Inl NoValidPagesError \<longleftrightarrow>
      (\<exists>st. processFiles L ?sorted init_state = Inr st \<and> images st = [])"
  proof (cases "processFiles L ?sorted init_state")
    case (Inl e)
    from processFiles_Inl [OF Inl] have "e \<noteq> NoValidPagesError" by auto
    with Inl opened show ?thesis by (simp add: CreateWebtoonStrip_def)
  next
    case (Inr st)
    with opened show ?thesis by (simp add: CreateWebtoonStrip_def)
  qed
  have none_iff: "?ps = [] \<longleftrightarrow> (\<forall>f\<in>set fs. page_of L f = None)"
  proof
    assume e: "?ps = []"
    show "\<forall>f\<in>set fs. page_of L f = None"
    proof
      fix f assume f: "f \<in> set fs"
      show "page_of L f = None"
      proof (cases "page_of L f")
        case None
        then show ?thesis .
      next
        case (Some img)
        then have "(f, img) \<in> set ?ps" using f sets by (simp add: set_decoded_pages)
        with e show ?thesis by simp
      qed
    qed
  next
    assume a: "\<forall>f\<in>set fs. page_of L f = None"
    show "?ps = []"
    proof (cases ?ps)
      case Nil
      then show ?thesis .
    next
      case (Cons p ps)
      then have "(fst p, snd p) \<in> set ?ps" by simp
      then have "fst p \<in> set fs \<and> page_of L (fst p) = Some (snd p)"
        unfolding set_decoded_pages using sets by simp
      with a show ?thesis by auto
    qed
  qed
  have second: "CreateWebtoonStrip L path = Inl NoValidPagesError \<longleftrightarrow>
      (\<forall>f\<in>set fs. \<not> fatal_entry f \<and> page_of L f = None)"
  proof (cases "\<forall>f\<in>set ?sorted. \<not> fatal_entry f")
    case True
    have "CreateWebtoonStrip L path =
       (if ?ps = [] then Inl NoValidPagesError
        else Inr (strip_of (widthAfter 0 ?ps) (accepted 0 ?ps)))"
      using CreateWebtoonStrip_eq [OF opened True] by (simp only: Let_def)
    then have "CreateWebtoonStrip L path = Inl NoValidPagesError \<longleftrightarrow> ?ps = []"
      by simp
    with none_iff True sets show ?thesis by auto
  next
    case False
    then obtain f where f: "f \<in> set ?sorted" "fatal_entry f" by blast
    from CreateWebtoonStrip_fatal [OF opened f]
    obtain g where "CreateWebtoonStrip L path = Inl (entry_error g)" by blast
    then have "CreateWebtoonStrip L path \<noteq> Inl NoValidPagesError" by simp
    with f sets show ?thesis by auto
  qed
  have third: "CreateWebtoonStrip L path = Inl NoValidPagesError"
    if "\<forall>f\<in>set fs. \<not> isImageFile (Name f)"
    unfolding second using that by (simp add: fatal_entry_def page_of_def)
  from first second third show ?thesis by blast
qed

text \<open>
  The archive \<open>empty.cbz\<close> holds a text file and a database file only.
\<close>

theorem C6_no_valid_pages_witness:
  "zip_OpenReader demo_lib ''empty.cbz'' = Some [file_thumbs, file_notes] \<and>
   sort_Slice_ok demo_lib less_Name [file_thumbs, file_notes] \<and>
   \<not> isImageFile (Name file_thumbs) \<and> \<not> isImageFile (Name file_notes) \<and>
   CreateWebtoonStrip demo_lib ''empty.cbz'' = Inl NoValidPagesError \<and>
   processFiles demo_lib (sort_Slice demo_lib less_Name [file_thumbs, file_notes]) init_state =
     Inr init_state \<and>
   images init_state = []"
proof -
  have no: "\<forall>f\<in>set [file_thumbs, file_notes]. \<not> isImageFile (Name f)"
    by (simp add: demo_isImageFile)
  have res: "CreateWebtoonStrip demo_lib ''empty.cbz'' = Inl NoValidPagesError"
    using C6_no_valid_pages [OF demo_open(4) demo_sort_ok(4)] no by blast
  have run: "processFiles demo_lib (sort_Slice demo_lib less_Name [file_thumbs, file_notes])
      init_state = Inr init_state"
    by (simp add: demo_sort demo_isImageFile)
  show ?thesis
    using res run demo_open(4) demo_sort_ok(4) demo_isImageFile(8,9)
    by (simp add: init_state_def)
qed

subsection \<open>C7: pages of other widths than the first\<close>

text \<open>
  Claim C7, as the code has it: for an archive that opens and whose entries with an
  image extension can all be opened and read, if the first decoded page in name order
  has a width other than zero and every other decoded page has a different width, the
  loop keeps the first page alone, and \<open>CreateWebtoonStrip\<close> returns the strip that is this
  page: same width, same height, same pixels. It does not return the error of line 126.
\<close>

theorem C7_only_first_page_kept:
  assumes opened: "zip_OpenReader L path = Some fs"
    and sorted: "sort_Slice_ok L less_Name fs"
    and readable: "\<forall>f\<in>set fs. \<not> fatal_entry f"
    and pages: "decoded_pages L (sort_Slice L less_Name fs) = (f, p) # rest"
    and nonzero: "Dx p \<noteq> 0"
    and others: "\<forall>q\<in>set rest. Dx (snd q) \<noteq> Dx p"
  shows "(\<exists>st. processFiles L (sort_Slice L less_Name fs) init_state = Inr st \<and>
              images st = [p]) \<and>
         CreateWebtoonStrip L path \<noteq> Inl NoValidPagesError \<and>
         (\<exists>strip. CreateWebtoonStrip L path = Inr strip \<and>
            Dx strip = Dx p \<and> Dy strip = Dy p \<and>
            (\<forall>x<Dx p. \<forall>r<Dy p. At strip x r = At p x r))"
proof -
  let ?sorted = "sort_Slice L less_Name fs"
  have nf: "\<forall>f\<in>set ?sorted. \<not> fatal_entry f"
    using readable set_sort_Slice [OF sorted] by simp
  have "filter (\<lambda>q. Dx (snd q) = Dx p) rest = []"
    using others by (simp add: filter_empty_conv)
  then have "accepted (Dx p) rest = []"
    by (simp only: accepted_nonzero [OF nonzero])
  then have acc: "accepted 0 ((f, p) # rest) = [(f, p)]"
    by simp
  have w: "widthAfter 0 ((f, p) # rest) = Dx p"
    using nonzero by (simp add: widthAfter_nonzero)
  have st: "processFiles L ?sorted init_state =
      Inr (foldl acceptPage init_state (map snd ((f, p) # rest)))"
    using processFiles_ok [OF nf] by (simp only: pages)
  have "images (foldl acceptPage init_state (map snd ((f, p) # rest))) =
      images init_state @ map snd (accepted (commonWidth init_state) ((f, p) # rest))"
    by (rule images_foldl_acceptPage)
  also have "\<dots> = [p]"
    by (simp add: init_state_def acc del: accepted.simps)
  finally have imgs: "images (foldl acceptPage init_state (map snd ((f, p) # rest))) = [p]" .
  have "CreateWebtoonStrip L path =
      (if decoded_pages L ?sorted = [] then Inl NoValidPagesError
       else Inr (strip_of (widthAfter 0 (decoded_pages L ?sorted))
                   (accepted 0 (decoded_pages L ?sorted))))"
    using CreateWebtoonStrip_eq [OF opened nf] by (simp only: Let_def)
  then have res: "CreateWebtoonStrip L path = Inr (strip_of (Dx p) [(f, p)])"
    unfolding pages acc w by simp
  have rows: "At (strip_of (Dx p) [(f, p)]) x r = At p x r" if "x < Dx p" "r < Dy p" for x r
    using At_strip_of [of 0 "[(f, p)]" x "Dx p" r] that by simp
  have dims: "Dx (strip_of (Dx p) [(f, p)]) = Dx p" "Dy (strip_of (Dx p) [(f, p)]) = Dy p"
    by (simp_all add: heights_def)
  from st imgs have one: "\<exists>st. processFiles L ?sorted init_state = Inr st \<and> images st = [p]"
    by blast
  from res have two: "CreateWebtoonStrip L path \<noteq> Inl NoValidPagesError" by simp
  from res rows dims have three: "\<exists>strip. CreateWebtoonStrip L path = Inr strip \<and>
            Dx strip = Dx p \<and> Dy strip = Dy p \<and>
            (\<forall>x<Dx p. \<forall>r<Dy p. At strip x r = At p x r)"
    by blast
  from one two three show ?thesis by blast
qed

text \<open>
  The archive \<open>mixed.cbz\<close>: \<open>p1.jpg\<close> is 2 wide and 3 high, \<open>p5.jpg\<close> is 3 wide. The strip
  is \<open>p1.jpg\<close> alone.
\<close>

theorem C7_only_first_page_kept_witness:
  "zip_OpenReader demo_lib ''mixed.cbz'' = Some [file_p5, file_p1] \<and>
   sort_Slice_ok demo_lib less_Name [file_p5, file_p1] \<and>
   \<not> fatal_entry file_p5 \<and> \<not> fatal_entry file_p1 \<and>
   decoded_pages demo_lib (sort_Slice demo_lib less_Name [file_p5, file_p1]) =
     [(file_p1, page 2 3 5), (file_p5, page 3 4 9)] \<and>
   Dx (page 2 3 5) \<noteq> 0 \<and> Dx (page 3 4 9) \<noteq> Dx (page 2 3 5) \<and>
   \<not> isl (CreateWebtoonStrip demo_lib ''mixed.cbz'') \<and>
   Dx (projr (CreateWebtoonStrip demo_lib ''mixed.cbz'')) = 2 \<and>
   Dy (projr (CreateWebtoonStrip demo_lib ''mixed.cbz'')) = 3 \<and>
   At (projr (CreateWebtoonStrip demo_lib ''mixed.cbz'')) 1 2 = RGBA 1 2 5 255"
proof -
  have nf: "\<forall>f\<in>set [file_p5, file_p1]. \<not> fatal_entry f" by (simp add: demo_fatal)
  have ps: "decoded_pages demo_lib (sort_Slice demo_lib less_Name [file_p5, file_p1]) =
     (file_p1, page 2 3 5) # [(file_p5, page 3 4 9)]"
    by (simp add: demo_sort demo_page_of)
  have nz: "Dx (page 2 3 5) \<noteq> 0" by simp
  have ot: "\<forall>q\<in>set [(file_p5, page 3 4 9)]. Dx (snd q) \<noteq> Dx (page 2 3 5)" by simp
  from C7_only_first_page_kept [OF demo_open(5) demo_sort_ok(5) nf ps nz ot]
  obtain strip where s: "CreateWebtoonStrip demo_lib ''mixed.cbz'' = Inr strip"
    and dx: "Dx strip = Dx (page 2 3 5)" and dy: "Dy strip = Dy (page 2 3 5)"
    and rows: "\<And>x r. x < Dx (page 2 3 5) \<Longrightarrow> r < Dy (page 2 3 5) \<Longrightarrow>
                 At strip x r = At (page 2 3 5) x r"
    by blast
  have a: "At strip 1 2 = RGBA 1 2 5 255" using rows [of 1 2] by simp
  show ?thesis
    unfolding s using a dx dy ps demo_open(5) demo_sort_ok(5) demo_fatal(2,6) by simp
qed

text \<open>
  C7 as it is written fails on \<open>mixed.cbz\<close>: the second page has another width than the
  first, and the result is an image, not the error of line 126.
\<close>

theorem C7_counterexample:
  "decoded_pages demo_lib (sort_Slice demo_lib less_Name [file_p5, file_p1]) =
     [(file_p1, page 2 3 5), (file_p5, page 3 4 9)] \<and>
   Dx (page 3 4 9) \<noteq> Dx (page 2 3 5) \<and>
   zip_OpenReader demo_lib ''mixed.cbz'' = Some [file_p5, file_p1] \<and>
   CreateWebtoonStrip demo_lib ''mixed.cbz'' = Inr (strip_of 2 [(file_p1, page 2 3 5)]) \<and>
   CreateWebtoonStrip demo_lib ''mixed.cbz'' \<noteq> Inl NoValidPagesError"
  by (simp add: mixed_strip demo_sort demo_page_of demo_open)

subsection \<open>C8: the order of the decoders\<close>

text \<open>
  Claim C8: \<open>decodeImage\<close> calls the JPEG decoder first, the PNG decoder only if that one
  failed and the WebP decoder only if both failed; the calls made are a beginning of the
  list JPEG, PNG, WebP without repetition; the result is the image of the first decoder
  that succeeds, under that decoder's format name, also when a later decoder would
  accept the buffer as well; if all three fail the result is the decoding error. The
  name of the entry plays no part: two entries with an image extension and the same
  bytes give the same page.
\<close>

theorem C8_decoder_priority:
  "(\<forall>img. jpeg_Decode L data = Some img \<longrightarrow>
      decodeImage L data = ([JPEG], Inr (img, ''jpeg''))) \<and>
   (\<forall>img. jpeg_Decode L data = None \<and> png_Decode L data = Some img \<longrightarrow>
      decodeImage L data = ([JPEG, PNG], Inr (img, ''png''))) \<and>
   (\<forall>img. jpeg_Decode L data = None \<and> png_Decode L data = None \<and>
      webp_Decode L data = Some img \<longrightarrow>
      decodeImage L data = ([JPEG, PNG, WEBP], Inr (img, ''webp''))) \<and>
   (jpeg_Decode L data = None \<and> png_Decode L data = None \<and> webp_Decode L data = None \<longrightarrow>
      decodeImage L data = ([JPEG, PNG, WEBP], Inl DecodeError)) \<and>
   distinct (fst (decodeImage L data)) \<and>
   (\<exists>n>0. fst (decodeImage L data) = take n [JPEG, PNG, WEBP]) \<and>
   (\<forall>f g. isImageFile (Name f) \<and> isImageFile (Name g) \<and>
      Content f = Bytes data \<and> Content g = Bytes data \<longrightarrow> page_of L f = page_of L g)"
proof -
  have calls: "fst (decodeImage L data) = [JPEG] \<or> fst (decodeImage L data) = [JPEG, PNG] \<or>
      fst (decodeImage L data) = [JPEG, PNG, WEBP]"
    by (simp add: decodeImage_def split: option.splits)
  then have dist: "distinct (fst (decodeImage L data))" by auto
  have "fst (decodeImage L data) = take 1 [JPEG, PNG, WEBP] \<or>
      fst (decodeImage L data) = take 2 [JPEG, PNG, WEBP] \<or>
      fst (decodeImage L data) = take 3 [JPEG, PNG, WEBP]"
    using calls by (simp add: numeral_2_eq_2 numeral_3_eq_3)
  then have pre: "\<exists>n>0. fst (decodeImage L data) = take n [JPEG, PNG, WEBP]"
    by (metis zero_less_one zero_less_numeral)
  have names: "page_of L f = page_of L g"
    if "isImageFile (Name f) \<and> isImageFile (Name g) \<and>
      Content f = Bytes data \<and> Content g = Bytes data" for f g
    using that by (simp add: page_of_def)
  have res: "(\<forall>img. jpeg_Decode L data = Some img \<longrightarrow>
      decodeImage L data = ([JPEG], Inr (img, ''jpeg''))) \<and>
   (\<forall>img. jpeg_Decode L data = None \<and> png_Decode L data = Some img \<longrightarrow>
      decodeImage L data = ([JPEG, PNG], Inr (img, ''png''))) \<and>
   (\<forall>img. jpeg_Decode L data = None \<and> png_Decode L data = None \<and>
      webp_Decode L data = Some img \<longrightarrow>
      decodeImage L data = ([JPEG, PNG, WEBP], Inr (img, ''webp''))) \<and>
   (jpeg_Decode L data = None \<and> png_Decode L data = None \<and> webp_Decode L data = None \<longrightarrow>
      decodeImage L data = ([JPEG, PNG, WEBP], Inl DecodeError))"
    by (simp add: decodeImage_def)
  from res dist pre names show ?thesis by blast
qed

text \<open>
  The toy JPEG and PNG decoders both accept a buffer that starts with 0: the result is
  the JPEG one. A buffer that starts with the PNG tag is decoded by the second call.
\<close>

theorem C8_decoder_priority_witness:
  "jpeg_Decode demo_lib [0, 2, 3, 5] = Some (page 2 3 5) \<and>
   png_Decode demo_lib [0, 2, 3, 5] = Some (page 2 3 5) \<and>
   decodeImage demo_lib [0, 2, 3, 5] = ([JPEG], Inr (page 2 3 5, ''jpeg'')) \<and>
   jpeg_Decode demo_lib [0x89, 2, 2, 7] = None \<and>
   png_Decode demo_lib [0x89, 2, 2, 7] = Some (page 2 2 7) \<and>
   decodeImage demo_lib [0x89, 2, 2, 7] = ([JPEG, PNG], Inr (page 2 2 7, ''png''))"
proof -
  have j: "jpeg_Decode demo_lib [0, 2, 3, 5] = Some (page 2 3 5)"
    and p: "png_Decode demo_lib [0, 2, 3, 5] = Some (page 2 3 5)"
    and j2: "jpeg_Decode demo_lib [0x89, 2, 2, 7] = None"
    and p2: "png_Decode demo_lib [0x89, 2, 2, 7] = Some (page 2 2 7)"
    by (simp_all add: demo_lib_def demo_decode_def)
  have a: "decodeImage demo_lib [0, 2, 3, 5] = ([JPEG], Inr (page 2 3 5, ''jpeg''))"
    using C8_decoder_priority [of demo_lib "[0, 2, 3, 5]"] j by blast
  have b: "decodeImage demo_lib [0x89, 2, 2, 7] = ([JPEG, PNG], Inr (page 2 2 7, ''png''))"
    using C8_decoder_priority [of demo_lib "[0x89, 2, 2, 7]"] j2 p2 by blast
  from j p a j2 p2 b show ?thesis by blast
qed

subsection \<open>C10: a first page of width zero\<close>

text \<open>
  Claim C10: let \<open>pre\<close> be the entries the loop has gone through, in name order, none of
  which failed to open or to be read, and let the first page decoded among them have
  width 0. Then that page is kept, its height is added, and the common width is still 0
  after it. As long as only pages of width 0 follow, all of them are kept and the common
  width stays 0. If after any number of such pages a page of another width follows, the
  loop keeps it too, the common width becomes the width of that page, and of the pages
  after it the ones of this width are kept: the kept pages have the widths 0 and the
  common width. The loop goes on from this state with the remaining entries, and when no
  entry remains \<open>CreateWebtoonStrip\<close> returns a strip of the common width whose height is
  the sum of the heights of all kept pages.
\<close>

theorem C10_zero_width_page:
  assumes split: "sort_Slice L less_Name fs = pre @ rest"
    and reached: "\<forall>f\<in>set pre. \<not> fatal_entry f"
    and pages: "decoded_pages L pre = (f0, p0) # ps"
    and zero: "Dx p0 = 0"
  shows "acceptPage init_state p0 = \<lparr>images = [p0], totalHeight = Dy p0, commonWidth = 0\<rparr> \<and>
    ((\<forall>z\<in>set ps. Dx (snd z) = 0) \<longrightarrow>
        processFiles L pre init_state =
          Inr \<lparr>images = p0 # map snd ps, totalHeight = Dy p0 + heights ps, commonWidth = 0\<rparr> \<and>
        (zip_OpenReader L path = Some fs \<and> rest = [] \<longrightarrow>
           (\<exists>strip. CreateWebtoonStrip L path = Inr strip \<and> Dx strip = 0 \<and>
              Dy strip = Dy p0 + heights ps))) \<and>
    (\<forall>zs q qs. ps = zs @ q # qs \<and> (\<forall>z\<in>set zs. Dx (snd z) = 0) \<and> Dx (snd q) \<noteq> 0 \<longrightarrow>
        processFiles L pre init_state =
          Inr \<lparr>images = p0 # map snd zs @ snd q #
                          map snd (filter (\<lambda>r. Dx (snd r) = Dx (snd q)) qs),
               totalHeight = Dy p0 + heights zs + Dy (snd q) +
                          heights (filter (\<lambda>r. Dx (snd r) = Dx (snd q)) qs),
               commonWidth = Dx (snd q)\<rparr> \<and>
        (zip_OpenReader L path = Some fs \<and> rest = [] \<longrightarrow>
           (\<exists>strip. CreateWebtoonStrip L path = Inr strip \<and> Dx strip = Dx (snd q) \<and>
              Dy strip = Dy p0 + heights zs + Dy (snd q) +
                         heights (filter (\<lambda>r. Dx (snd r) = Dx (snd q)) qs)))) \<and>
    (\<forall>st. processFiles L pre init_state = Inr st \<longrightarrow>
        processFiles L (sort_Slice L less_Name fs) init_state = processFiles L rest st)"
proof -
  let ?sorted = "sort_Slice L less_Name fs"
  let ?all = "(f0, p0) # ps"
  have run: "processFiles L pre init_state =
      Inr \<lparr>images = map snd (accepted 0 ?all), totalHeight = heights (accepted 0 ?all),
           commonWidth = widthAfter 0 ?all\<rparr>"
    unfolding processFiles_ok [OF reached] pages foldl_acceptPage
    by (simp add: init_state_def del: accepted.simps widthAfter.simps)
  have res: "CreateWebtoonStrip L path = Inr (strip_of (widthAfter 0 ?all) (accepted 0 ?all))"
    if h: "zip_OpenReader L path = Some fs \<and> rest = []"
  proof -
    have whole: "?sorted = pre" using split h by simp
    have nf: "\<forall>f\<in>set ?sorted. \<not> fatal_entry f" using reached whole by simp
    show ?thesis
      using CreateWebtoonStrip_eq [of L path fs, OF _ nf] h unfolding whole pages
      by (simp add: Let_def del: accepted.simps widthAfter.simps)
  qed
  have first: "acceptPage init_state p0 =
      \<lparr>images = [p0], totalHeight = Dy p0, commonWidth = 0\<rparr>"
    by (simp add: acceptPage_first zero)
  have allzero: "processFiles L pre init_state =
          Inr \<lparr>images = p0 # map snd ps, totalHeight = Dy p0 + heights ps, commonWidth = 0\<rparr> \<and>
        (zip_OpenReader L path = Some fs \<and> rest = [] \<longrightarrow>
           (\<exists>strip. CreateWebtoonStrip L path = Inr strip \<and> Dx strip = 0 \<and>
              Dy strip = Dy p0 + heights ps))"
    if h: "\<forall>z\<in>set ps. Dx (snd z) = 0"
  proof -
    have z: "\<forall>z\<in>set ?all. Dx (snd z) = 0" using h zero by simp
    have acc: "accepted 0 ?all = ?all"
      by (rule accepted_same_width [OF z]) simp
    have w: "widthAfter 0 ?all = 0"
      by (rule widthAfter_same_width [OF z]) simp
    have a: "processFiles L pre init_state =
          Inr \<lparr>images = p0 # map snd ps, totalHeight = Dy p0 + heights ps, commonWidth = 0\<rparr>"
      unfolding run acc w by simp
    have b: "\<exists>strip. CreateWebtoonStrip L path = Inr strip \<and> Dx strip = 0 \<and>
              Dy strip = Dy p0 + heights ps"
      if "zip_OpenReader L path = Some fs \<and> rest = []"
      unfolding res [OF that] acc w by simp
    from a b show ?thesis by blast
  qed
  have mixed: "processFiles L pre init_state =
          Inr \<lparr>images = p0 # map snd zs @ snd q #
                          map snd (filter (\<lambda>r. Dx (snd r) = Dx (snd q)) qs),
               totalHeight = Dy p0 + heights zs + Dy (snd q) +
                          heights (filter (\<lambda>r. Dx (snd r) = Dx (snd q)) qs),
               commonWidth = Dx (snd q)\<rparr> \<and>
        (zip_OpenReader L path = Some fs \<and> rest = [] \<longrightarrow>
           (\<exists>strip. CreateWebtoonStrip L path = Inr strip \<and> Dx strip = Dx (snd q) \<and>
              Dy strip = Dy p0 + heights zs + Dy (snd q) +
                         heights (filter (\<lambda>r. Dx (snd r) = Dx (snd q)) qs)))"
    if h: "ps = zs @ q # qs \<and> (\<forall>z\<in>set zs. Dx (snd z) = 0) \<and> Dx (snd q) \<noteq> 0"
    for zs q qs
  proof -
    have z: "\<forall>z\<in>set ((f0, p0) # zs). Dx (snd z) = 0" using h zero by simp
    have sp: "?all = ((f0, p0) # zs) @ q # qs" using h by simp
    have nz: "Dx (snd q) \<noteq> 0" using h by simp
    have acc: "accepted 0 ?all =
        ((f0, p0) # zs) @ q # filter (\<lambda>r. Dx (snd r) = Dx (snd q)) qs"
      unfolding sp accepted_zero_prefix [OF z]
      by (simp add: accepted_nonzero [OF nz])
    have w: "widthAfter 0 ?all = Dx (snd q)"
      unfolding sp widthAfter_zero_prefix [OF z]
      by (simp add: widthAfter_nonzero [OF nz])
    have a: "processFiles L pre init_state =
          Inr \<lparr>images = p0 # map snd zs @ snd q #
                          map snd (filter (\<lambda>r. Dx (snd r) = Dx (snd q)) qs),
               totalHeight = Dy p0 + heights zs + Dy (snd q) +
                          heights (filter (\<lambda>r. Dx (snd r) = Dx (snd q)) qs),
               commonWidth = Dx (snd q)\<rparr>"
      unfolding run acc w by simp
    have b: "\<exists>strip. CreateWebtoonStrip L path = Inr strip \<and> Dx strip = Dx (snd q) \<and>
              Dy strip = Dy p0 + heights zs + Dy (snd q) +
                         heights (filter (\<lambda>r. Dx (snd r) = Dx (snd q)) qs)"
      if "zip_OpenReader L path = Some fs \<and> rest = []"
      unfolding res [OF that] acc w by simp
    from a b show ?thesis by blast
  qed
  have cont: "processFiles L ?sorted init_state = processFiles L rest st"
    if "processFiles L pre init_state = Inr st" for st
    unfolding split processFiles_append that by simp
  from first allzero mixed cont show ?thesis by blast
qed

text \<open>
  The archive \<open>zero.cbz\<close>: \<open>p0.jpg\<close> decodes to a page of width 0, \<open>p1.jpg\<close> to a page 2 wide
  and 3 high, \<open>p5.jpg\<close> to a page 3 wide.
\<close>

theorem C10_zero_width_page_witness:
  "sort_Slice demo_lib less_Name [file_p5, file_p1, file_p0] =
     [file_p0, file_p1, file_p5] @ [] \<and>
   \<not> fatal_entry file_p0 \<and> \<not> fatal_entry file_p1 \<and> \<not> fatal_entry file_p5 \<and>
   decoded_pages demo_lib [file_p0, file_p1, file_p5] =
     [(file_p0, page 0 0 1), (file_p1, page 2 3 5), (file_p5, page 3 4 9)] \<and>
   Dx (page 0 0 1) = 0 \<and> Dx (page 2 3 5) \<noteq> 0 \<and>
   zip_OpenReader demo_lib ''zero.cbz'' = Some [file_p5, file_p1, file_p0] \<and>
   processFiles demo_lib [file_p0, file_p1, file_p5] init_state =
     Inr \<lparr>images = [page 0 0 1, page 2 3 5], totalHeight = 3, commonWidth = 2\<rparr> \<and>
   \<not> isl (CreateWebtoonStrip demo_lib ''zero.cbz'') \<and>
   Dx (projr (CreateWebtoonStrip demo_lib ''zero.cbz'')) = 2 \<and>
   Dy (projr (CreateWebtoonStrip demo_lib ''zero.cbz'')) = 3"
proof -
  have sp: "sort_Slice demo_lib less_Name [file_p5, file_p1, file_p0] =
     [file_p0, file_p1, file_p5] @ []"
    by (simp add: demo_sort)
  have nf: "\<forall>f\<in>set [file_p0, file_p1, file_p5]. \<not> fatal_entry f"
    by (simp add: demo_fatal)
  have ps: "decoded_pages demo_lib [file_p0, file_p1, file_p5] =
     (file_p0, page 0 0 1) # [(file_p1, page 2 3 5), (file_p5, page 3 4 9)]"
    by (simp add: demo_page_of)
  have z: "Dx (page 0 0 1) = 0" by simp
  note main = C10_zero_width_page [OF sp nf ps z, of "''zero.cbz''"]
  have inst: "[(file_p1, page 2 3 5), (file_p5, page 3 4 9)] =
       [] @ (file_p1, page 2 3 5) # [(file_p5, page 3 4 9)] \<and>
     (\<forall>z\<in>set []. Dx (snd z) = 0) \<and> Dx (snd (file_p1, page 2 3 5)) \<noteq> 0"
    by simp
  note third = main [THEN conjunct2, THEN conjunct2, THEN conjunct1,
      THEN spec, THEN spec, THEN spec, THEN mp, OF inst]
  have run: "processFiles demo_lib [file_p0, file_p1, file_p5] init_state =
       Inr \<lparr>images = [page 0 0 1, page 2 3 5], totalHeight = 3, commonWidth = 2\<rparr>"
    using third [THEN conjunct1] by simp
  have op: "zip_OpenReader demo_lib ''zero.cbz'' = Some [file_p5, file_p1, file_p0] \<and>
      ([]::zip_file list) = []"
    by (simp add: demo_open)
  have fin: "\<not> isl (CreateWebtoonStrip demo_lib ''zero.cbz'') \<and>
      Dx (projr (CreateWebtoonStrip demo_lib ''zero.cbz'')) = 2 \<and>
      Dy (projr (CreateWebtoonStrip demo_lib ''zero.cbz'')) = 3"
    using third [THEN conjunct2, THEN mp, OF op] by (elim exE conjE) simp
  show ?thesis
    unfolding run using fin sp demo_open(6) demo_fatal(1,2,6) ps
    by simp
qed

end
